theory Spec2Isabelle
  imports Main "HOL-Library.AList" "HOL-Library.Char_ord" "HOL-Library.List_Lexorder"
begin

section \<open>Values and dictionaries\<close>

text \<open>
  The values that travel through the logging core are the field values of the ambient
  context and of the per-call \<open>extra\<close> mapping. \<open>context.py\<close> asks for simple values
  (str/int/bool/float), \<open>None\<close> is what \<open>set_context\<close> skips, and \<open>_safe_json_value\<close>
  exists for objects that \<open>json.dumps\<close> rejects. \<open>PObj r\<close> is such an object: \<open>r\<close> is
  what \<open>str(obj)\<close> does, \<open>Some s\<close> when it returns \<open>s\<close> and \<open>None\<close> when it raises.
  Nested containers (lists, dictionaries) are left out of the value type.

  A float is \<open>nan\<close>, an infinity (\<open>FInf True\<close> is the negative one) or a finite number.
  A finite float is given by what \<open>repr\<close> prints of it: its sign (\<open>True\<close> for minus), the
  significant decimal digits, as the natural number they spell, and the position of the
  decimal point counted from the first digit. \<open>FFinite False 15 1\<close> is 1.5,
  \<open>FFinite True 1 (-4)\<close> is -1e-05, \<open>FFinite False 0 1\<close> is 0.0.

  A Python \<open>dict\<close> keeps insertion order; it is an association list with distinct keys.
  \<open>d[k] = v\<close> is \<open>AList.update k v d\<close> (overwrite in place, else append),
  \<open>d.pop(k, None)\<close> is \<open>AList.delete k d\<close>, \<open>d.get(k)\<close> is \<open>map_of d k\<close>.
\<close>

datatype pyfloat = FNaN | FInf bool | FFinite bool nat int

datatype pyval =
  PNone | PBool bool | PInt int | PFloat pyfloat | PStr string | PObj "string option"

type_synonym pydict = "(string \<times> pyval) list"

datatype error = KeyError string | TypeError | StrError | ValueError string

definition setdefault :: "string \<Rightarrow> pyval \<Rightarrow> pydict \<Rightarrow> pydict" where
  "setdefault k v d = (if k \<in> fst ` set d then d else d @ [(k, v)])"


section \<open>logger.py: reserved keys and \<open>SafeLogger._sanitize_extra\<close>\<close>

text \<open>
  \<open>_standard_logrecord_keys()\<close> (formatters.py) and the first operand of \<open>_STANDARD_KEYS\<close>
  (logger.py) are the attribute names of a freshly constructed \<open>logging.LogRecord\<close>.
  The class belongs to the Python standard library; the names below are the ones its
  constructor sets in Python 3.11, in its order. (Python 3.12 adds \<open>taskName\<close>, which is
  then one more reserved key.)
\<close>

definition standard_logrecord_keys :: "string list" where
  "standard_logrecord_keys =
     [''name'', ''msg'', ''args'', ''levelname'', ''levelno'', ''pathname'', ''filename'',
      ''module'', ''exc_info'', ''exc_text'', ''stack_info'', ''lineno'', ''funcName'',
      ''created'', ''msecs'', ''relativeCreated'', ''thread'', ''threadName'',
      ''processName'', ''process'']"

definition STANDARD_KEYS :: "string list" where
  "STANDARD_KEYS =
     standard_logrecord_keys @ [''message'', ''asctime'', ''exc_info'', ''stack_info'']"

text \<open>The loop of \<open>_sanitize_extra\<close>, with the dictionary \<open>sanitized\<close> as accumulator.\<close>

fun sanitize_loop :: "pydict \<Rightarrow> pydict \<Rightarrow> pydict" where
  "sanitize_loop [] sanitized = sanitized"
| "sanitize_loop ((k, v) # items) sanitized =
     (if k \<in> set STANDARD_KEYS
      then sanitize_loop items (AList.update (k @ ''_extra'') v sanitized)
      else sanitize_loop items (AList.update k v sanitized))"

text \<open>
  \<open>sanitize_extra enabled extra\<close> is \<open>SafeLogger(_, enabled)._sanitize_extra(extra)\<close>:
  \<open>not extra\<close> holds for \<open>None\<close> and for the empty mapping.
\<close>

definition sanitize_extra :: "bool \<Rightarrow> pydict option \<Rightarrow> pydict option" where
  "sanitize_extra enabled extra =
     (case extra of
        None \<Rightarrow> None
      | Some e \<Rightarrow>
          if e = [] then None
          else if \<not> enabled then Some e
          else Some (sanitize_loop e []))"


section \<open>context.py: the ambient context store\<close>

text \<open>
  The two \<open>ContextVar\<close>s of one logical flow: \<open>_log_context\<close> (default \<open>None\<close>) and
  \<open>_streaming\<close> (default \<open>False\<close>). Each function takes the flow's variables and
  returns them updated.
\<close>

record flow_vars =
  log_context :: "pydict option"
  streaming :: bool

definition flow_default :: flow_vars where
  "flow_default = \<lparr>log_context = None, streaming = False\<rparr>"

definition get_context :: "flow_vars \<Rightarrow> pydict" where
  "get_context s = (case log_context s of None \<Rightarrow> [] | Some ctx \<Rightarrow> if ctx \<noteq> [] then ctx else [])"

fun set_context_loop :: "pydict \<Rightarrow> pydict \<Rightarrow> pydict" where
  "set_context_loop [] ctx = ctx"
| "set_context_loop ((k, v) # kwargs) ctx =
     (if v = PNone then set_context_loop kwargs ctx
      else set_context_loop kwargs (AList.update k v ctx))"

definition set_context :: "pydict \<Rightarrow> flow_vars \<Rightarrow> flow_vars" where
  "set_context kwargs s = s\<lparr>log_context := Some (set_context_loop kwargs (get_context s))\<rparr>"

definition set_context_dict :: "pydict \<Rightarrow> flow_vars \<Rightarrow> flow_vars" where
  "set_context_dict data s = s\<lparr>log_context := Some (if data \<noteq> [] then data else [])\<rparr>"

fun remove_context_loop :: "string list \<Rightarrow> pydict \<Rightarrow> pydict" where
  "remove_context_loop [] ctx = ctx"
| "remove_context_loop (k # keys) ctx = remove_context_loop keys (AList.delete k ctx)"

definition remove_context :: "string list \<Rightarrow> flow_vars \<Rightarrow> flow_vars" where
  "remove_context keys s =
     (if keys = [] then s
      else s\<lparr>log_context := Some (remove_context_loop keys (get_context s))\<rparr>)"

definition clear_context :: "flow_vars \<Rightarrow> flow_vars" where
  "clear_context s = s\<lparr>log_context := Some []\<rparr>"

definition set_request_id :: "string option \<Rightarrow> flow_vars \<Rightarrow> flow_vars" where
  "set_request_id request_id s =
     (case request_id of
        None \<Rightarrow> remove_context [''request_id''] s
      | Some r \<Rightarrow> set_context [(''request_id'', PStr r)] s)"

definition get_request_id :: "flow_vars \<Rightarrow> pyval option" where
  "get_request_id s = map_of (get_context s) ''request_id''"

definition set_streaming :: "bool \<Rightarrow> flow_vars \<Rightarrow> flow_vars" where
  "set_streaming is_streaming_arg s = s\<lparr>streaming := is_streaming_arg\<rparr>"

definition is_streaming :: "flow_vars \<Rightarrow> bool" where
  "is_streaming s = streaming s"


section \<open>Rendering values: \<open>str\<close> and \<open>json.dumps\<close>\<close>

definition digit_char :: "nat \<Rightarrow> char" where
  "digit_char d = ''0123456789abcdef'' ! (d mod 16)"

fun digits :: "nat \<Rightarrow> string" where
  "digits n = (if n < 10 then [digit_char n] else digits (n div 10) @ [digit_char (n mod 10)])"

declare digits.simps [simp del]

definition str_int :: "int \<Rightarrow> string" where
  "str_int i = (if i < 0 then CHR ''-'' # digits (nat (- i)) else digits (nat i))"

text \<open>
  \<open>repr\<close> of a finite float with digits \<open>m\<close> and decimal point at \<open>p\<close>, without the
  sign: exponent notation when \<open>p \<le> -4\<close> or \<open>p > 16\<close> (the exponent \<open>p - 1\<close> has at least
  two digits), else positional notation, which always shows a fraction.
\<close>

definition pad2 :: "string \<Rightarrow> string" where
  "pad2 ds = (if length ds < 2 then CHR ''0'' # ds else ds)"

definition finite_repr :: "nat \<Rightarrow> int \<Rightarrow> string" where
  "finite_repr m p =
     (let D = digits m; n = int (length D)
      in if m = 0 then ''0.0''
         else if p \<le> - 4 \<or> p > 16
           then [hd D] @ (if length D > 1 then ''.'' @ tl D else [])
                @ ''e'' @ (if p - 1 < 0 then ''-'' else ''+'') @ pad2 (digits (nat \<bar>p - 1\<bar>))
         else if p \<le> 0 then ''0.'' @ replicate (nat (- p)) (CHR ''0'') @ D
         else if p < n then take (nat p) D @ ''.'' @ drop (nat p) D
         else D @ replicate (nat (p - n)) (CHR ''0'') @ ''.0'')"

fun float_repr :: "pyfloat \<Rightarrow> string" where
  "float_repr FNaN = ''nan''"
| "float_repr (FInf neg) = (if neg then ''-inf'' else ''inf'')"
| "float_repr (FFinite neg m p) = (if neg then ''-'' else []) @ finite_repr m p"

text \<open>\<open>str(v)\<close>, which is also what an f-string field \<open>{v}\<close> renders.\<close>

fun py_str :: "pyval \<Rightarrow> error + string" where
  "py_str PNone = Inr ''None''"
| "py_str (PBool b) = Inr (if b then ''True'' else ''False'')"
| "py_str (PInt i) = Inr (str_int i)"
| "py_str (PFloat f) = Inr (float_repr f)"
| "py_str (PStr s) = Inr s"
| "py_str (PObj (Some s)) = Inr s"
| "py_str (PObj None) = Inl StrError"

text \<open>
  \<open>json.dumps(_, ensure_ascii=False)\<close> of the standard library: a string is quoted, with
  the backslash, the double quote and the control characters below 0x20 escaped and every
  other character written as it is; a finite float is written as \<open>repr\<close> prints it, and
  (\<open>allow_nan\<close> being left at its default) the floats that are not finite are written as
  the tokens \<open>NaN\<close>, \<open>Infinity\<close> and \<open>-Infinity\<close>; the separators are \<open>", "\<close> and \<open>": "\<close>.
\<close>

definition escape_char :: "char \<Rightarrow> string" where
  "escape_char c =
     (if c = CHR 0x5C then [CHR 0x5C, CHR 0x5C]
      else if c = CHR 0x22 then [CHR 0x5C, CHR 0x22]
      else if c = CHR 0x08 then [CHR 0x5C, CHR ''b'']
      else if c = CHR 0x0C then [CHR 0x5C, CHR ''f'']
      else if c = CHR 0x0A then [CHR 0x5C, CHR ''n'']
      else if c = CHR 0x0D then [CHR 0x5C, CHR ''r'']
      else if c = CHR 0x09 then [CHR 0x5C, CHR ''t'']
      else if (of_char c :: nat) < 32
        then [CHR 0x5C, CHR ''u'', CHR ''0'', CHR ''0'',
              digit_char (of_char c div 16), digit_char (of_char c mod 16)]
      else [c])"

definition dumps_str :: "string \<Rightarrow> string" where
  "dumps_str s = [CHR 0x22] @ concat (map escape_char s) @ [CHR 0x22]"

fun dumps_value :: "pyval \<Rightarrow> error + string" where
  "dumps_value PNone = Inr ''null''"
| "dumps_value (PBool b) = Inr (if b then ''true'' else ''false'')"
| "dumps_value (PInt i) = Inr (str_int i)"
| "dumps_value (PFloat FNaN) = Inr ''NaN''"
| "dumps_value (PFloat (FInf neg)) = Inr (if neg then ''-Infinity'' else ''Infinity'')"
| "dumps_value (PFloat (FFinite neg m p)) = Inr (float_repr (FFinite neg m p))"
| "dumps_value (PStr s) = Inr (dumps_str s)"
| "dumps_value (PObj r) = Inl TypeError"

fun dumps_items :: "pydict \<Rightarrow> error + string" where
  "dumps_items [] = Inr []"
| "dumps_items ((k, v) # items) =
     (case dumps_value v of
        Inl e \<Rightarrow> Inl e
      | Inr sv \<Rightarrow>
          (case dumps_items items of
             Inl e \<Rightarrow> Inl e
           | Inr rest \<Rightarrow>
               Inr (dumps_str k @ '': '' @ sv @ (if items = [] then [] else '', '' @ rest))))"

definition dumps_dict :: "pydict \<Rightarrow> error + string" where
  "dumps_dict d =
     (case dumps_items d of Inl e \<Rightarrow> Inl e | Inr body \<Rightarrow> Inr (''{'' @ body @ ''}''))"


section \<open>The log record\<close>

text \<open>
  A \<open>logging.LogRecord\<close> as the formatters read it. \<open>created\<close> is the time of the call;
  \<open>exc_info\<close> is \<open>Some t\<close> when the record carries exception information, \<open>t\<close> being the
  traceback text \<open>formatException\<close> renders for it; \<open>attrs\<close> holds the entries of
  \<open>record.__dict__\<close> added after construction, in insertion order: the \<open>extra\<close> keys
  written by \<open>makeRecord\<close>, then \<open>message\<close> and \<open>asctime\<close> once a
  \<open>logging.Formatter.format\<close> has run on the record.
\<close>

datatype level = DEBUG | INFO | WARNING | ERROR | CRITICAL

fun level_number :: "level \<Rightarrow> nat" where
  "level_number DEBUG = 10"
| "level_number INFO = 20"
| "level_number WARNING = 30"
| "level_number ERROR = 40"
| "level_number CRITICAL = 50"

fun getLevelName :: "level \<Rightarrow> string" where
  "getLevelName DEBUG = ''DEBUG''"
| "getLevelName INFO = ''INFO''"
| "getLevelName WARNING = ''WARNING''"
| "getLevelName ERROR = ''ERROR''"
| "getLevelName CRITICAL = ''CRITICAL''"

record LogRecord =
  name :: string
  msg :: string
  levelname :: string
  levelno :: nat
  module :: string
  funcName :: string
  lineno :: int
  created :: nat
  exc_info :: "string option"
  exc_text :: "string option"
  attrs :: pydict

text \<open>
  \<open>record.__dict__\<close>: the constructor's attributes first (those that have a value in the
  model; everyone of them is a standard key), then \<open>attrs\<close>.
\<close>

definition record_dict :: "LogRecord \<Rightarrow> pydict" where
  "record_dict r =
     [(''name'', PStr (name r)), (''msg'', PStr (msg r)),
      (''levelname'', PStr (levelname r)), (''levelno'', PInt (int (levelno r))),
      (''module'', PStr (module r)), (''lineno'', PInt (lineno r)),
      (''funcName'', PStr (funcName r))] @ attrs r"

definition getMessage :: "LogRecord \<Rightarrow> string" where
  "getMessage r = msg r"


section \<open>\<open>logging.Formatter\<close>\<close>

text \<open>
  A percent-style layout template is a list of literal pieces and \<open>%(key)s\<close> fields; a
  field names an entry of \<open>record_dict\<close>, and a name that the record does not have is the
  \<open>ValueError\<close> of \<open>formatMessage\<close>. The thirteen standard attributes without a value
  in the record model (\<open>args\<close>, \<open>pathname\<close>, \<open>filename\<close>, \<open>created\<close>, \<open>thread\<close>, ...) are
  answered in the same way, where the code prints them: what is stated of the text
  formatter is stated of layouts over the modelled attributes and the extra keys, such as
  the default layout. The configuration's \<open>datefmt\<close> is modelled by the function from
  \<open>created\<close> to the text that \<open>formatTime\<close> renders with it.
\<close>

datatype seg = Lit string | Attr string

definition usesTime :: "seg list \<Rightarrow> bool" where
  "usesTime fmt = (Attr ''asctime'' \<in> set fmt)"

fun formatMessage :: "seg list \<Rightarrow> pydict \<Rightarrow> error + string" where
  "formatMessage [] d = Inr []"
| "formatMessage (Lit s # fmt) d =
     (case formatMessage fmt d of Inl e \<Rightarrow> Inl e | Inr rest \<Rightarrow> Inr (s @ rest))"
| "formatMessage (Attr k # fmt) d =
     (case map_of d k of
        None \<Rightarrow> Inl (ValueError k)
      | Some v \<Rightarrow>
          (case py_str v of
             Inl e \<Rightarrow> Inl e
           | Inr sv \<Rightarrow>
               (case formatMessage fmt d of Inl e \<Rightarrow> Inl e | Inr rest \<Rightarrow> Inr (sv @ rest))))"

text \<open>
  \<open>logging.Formatter.format\<close>: it stores \<open>message\<close> (and \<open>asctime\<close> when the template
  uses it) in the record, renders the template, caches the traceback text in \<open>exc_text\<close>
  and appends it on a new line. The record is returned as the call leaves it. No call of
  the facade passes positional arguments or \<open>stack_info\<close> here: \<open>getMessage\<close> is \<open>msg\<close>,
  and there is no stack text to append.
\<close>

definition Formatter_format ::
  "seg list \<Rightarrow> (nat \<Rightarrow> string) \<Rightarrow> LogRecord \<Rightarrow> (error + string) \<times> LogRecord" where
  "Formatter_format fmt datefmt r =
     (let r1 = r\<lparr>attrs := AList.update ''message'' (PStr (getMessage r)) (attrs r)\<rparr>;
          r2 = (if usesTime fmt
                then r1\<lparr>attrs := AList.update ''asctime'' (PStr (datefmt (created r1))) (attrs r1)\<rparr>
                else r1)
      in case formatMessage fmt (record_dict r2) of
           Inl e \<Rightarrow> (Inl e, r2)
         | Inr s \<Rightarrow>
             (let r3 = (if exc_info r2 \<noteq> None \<and> (exc_text r2 = None \<or> exc_text r2 = Some [])
                        then r2\<lparr>exc_text := exc_info r2\<rparr> else r2)
              in case exc_text r3 of
                   None \<Rightarrow> (Inr s, r3)
                 | Some t \<Rightarrow>
                     if t = [] then (Inr s, r3)
                     else (Inr ((if s \<noteq> [] \<and> last s = CHR 0x0A then s else s @ [CHR 0x0A]) @ t), r3)))"


section \<open>formatters.py\<close>

definition safe_json_value :: "pyval \<Rightarrow> pyval" where
  "safe_json_value obj =
     (case dumps_value obj of
        Inr _ \<Rightarrow> obj
      | Inl _ \<Rightarrow>
          (case py_str obj of
             Inr s \<Rightarrow> PStr s
           | Inl _ \<Rightarrow> PStr ''<not serializable>''))"

text \<open>The second loop of \<open>TextFormatter.format\<close>: \<open>extras.setdefault(k, v)\<close> per context item.\<close>

fun text_ctx_loop :: "pydict \<Rightarrow> pydict \<Rightarrow> pydict" where
  "text_ctx_loop [] extras = extras"
| "text_ctx_loop ((k, v) # ctx) extras = text_ctx_loop ctx (setdefault k v extras)"

definition text_extras :: "LogRecord \<Rightarrow> pydict \<Rightarrow> pydict" where
  "text_extras r ctx =
     text_ctx_loop ctx
       (filter (\<lambda>(k, v). k \<notin> set standard_logrecord_keys \<and> k \<notin> {''message'', ''asctime''})
          (record_dict r))"

text \<open>The pieces \<open>f"{k}={extras[k]}"\<close> for the keys in sorted order.\<close>

fun tail_tokens :: "string list \<Rightarrow> pydict \<Rightarrow> error + string list" where
  "tail_tokens [] extras = Inr []"
| "tail_tokens (k # ks) extras =
     (case map_of extras k of
        None \<Rightarrow> Inl (KeyError k)
      | Some v \<Rightarrow>
          (case py_str v of
             Inl e \<Rightarrow> Inl e
           | Inr sv \<Rightarrow>
               (case tail_tokens ks extras of
                  Inl e \<Rightarrow> Inl e
                | Inr ts \<Rightarrow> Inr ((k @ ''='' @ sv) # ts))))"

fun join :: "string \<Rightarrow> string list \<Rightarrow> string" where
  "join sep [] = []"
| "join sep [t] = t"
| "join sep (t # ts) = t @ sep @ join sep ts"

definition TextFormatter_format ::
  "seg list \<Rightarrow> (nat \<Rightarrow> string) \<Rightarrow> pydict \<Rightarrow> LogRecord \<Rightarrow> (error + string) \<times> LogRecord" where
  "TextFormatter_format fmt datefmt ctx r =
     (case Formatter_format fmt datefmt r of
        (Inl e, r') \<Rightarrow> (Inl e, r')
      | (Inr base, r') \<Rightarrow>
          (let extras = text_extras r' ctx
           in if extras \<noteq> []
              then (case tail_tokens (sort (map fst extras)) extras of
                      Inl e \<Rightarrow> (Inl e, r')
                    | Inr ts \<Rightarrow> (Inr (base @ '' | '' @ join '' '' ts), r'))
              else (Inr base, r')))"

text \<open>
  \<open>JsonFormatter.format\<close> up to the final \<open>json.dumps\<close>: the dictionary \<open>data\<close>. The dict
  display writes the seven base entries in order, a later entry overwriting an earlier one
  of the same key.
\<close>

fun json_ctx_loop :: "pydict \<Rightarrow> pydict \<Rightarrow> pydict" where
  "json_ctx_loop [] data = data"
| "json_ctx_loop ((k, v) # ctx) data =
     (if k \<notin> fst ` set data
      then json_ctx_loop ctx (AList.update k (safe_json_value v) data)
      else json_ctx_loop ctx data)"

fun json_record_loop :: "pydict \<Rightarrow> pydict \<Rightarrow> pydict" where
  "json_record_loop [] data = data"
| "json_record_loop ((k, v) # items) data =
     (if k \<in> set standard_logrecord_keys \<or> k \<in> {''message''}
      then json_record_loop items data
      else json_record_loop items (AList.update k (safe_json_value v) data))"

definition json_base :: "string \<Rightarrow> (nat \<Rightarrow> string) \<Rightarrow> LogRecord \<Rightarrow> pydict" where
  "json_base ts_key datefmt r =
     AList.update ''line'' (PInt (lineno r))
       (AList.update ''func'' (PStr (funcName r))
         (AList.update ''module'' (PStr (module r))
           (AList.update ''message'' (PStr (getMessage r))
             (AList.update ''logger'' (PStr (name r))
               (AList.update ''level'' (PStr (levelname r))
                 [(ts_key, PStr (datefmt (created r)))])))))"

definition json_data :: "string \<Rightarrow> (nat \<Rightarrow> string) \<Rightarrow> pydict \<Rightarrow> LogRecord \<Rightarrow> pydict" where
  "json_data ts_key datefmt ctx r =
     (let data = json_record_loop (record_dict r) (json_ctx_loop ctx (json_base ts_key datefmt r))
      in case exc_info r of
           None \<Rightarrow> data
         | Some t \<Rightarrow> AList.update ''exc'' (PStr t) data)"

definition JsonFormatter_format ::
  "string \<Rightarrow> (nat \<Rightarrow> string) \<Rightarrow> pydict \<Rightarrow> LogRecord \<Rightarrow> (error + string) \<times> LogRecord" where
  "JsonFormatter_format ts_key datefmt ctx r = (dumps_dict (json_data ts_key datefmt ctx r), r)"



section \<open>config.py: the settings bundle\<close>

text \<open>
  \<open>LogConfig\<close> as \<open>load_config\<close> hands it over: \<open>level\<close> is one of the five level names,
  \<open>console_format\<close> is \<open>text\<close> or \<open>json\<close>. \<open>text_fmt\<close> is the parsed layout template
  and \<open>datefmt\<close> the time rendering it selects.
\<close>

datatype format_kind = TextFormat | JsonFormat

record LogConfig =
  level :: level
  logger_name :: string
  console_enabled :: bool
  console_format :: format_kind
  text_file_enabled :: bool
  text_file_path :: string
  json_file_enabled :: bool
  json_file_path :: string
  rotation_when :: string
  rotation_interval :: int
  rotation_backup_count :: int
  rotation_utc :: bool
  sanitize_extra_flag :: bool
  stream_safe :: bool
  stream_debug :: bool
  datefmt :: "nat \<Rightarrow> string"
  text_fmt :: "seg list"
  json_ts_key :: string

text \<open>The default of \<open>LOG_TEXT_FMT\<close>: \<open>[%(asctime)s] [%(levelname)s] %(message)s\<close>.\<close>

definition default_text_fmt :: "seg list" where
  "default_text_fmt =
     [Lit ''['', Attr ''asctime'', Lit ''] ['', Attr ''levelname'', Lit ''] '', Attr ''message'']"


section \<open>handlers.py: the sinks\<close>

datatype formatter = TextFormatter "seg list" "nat \<Rightarrow> string" | JsonFormatter string "nat \<Rightarrow> string"

fun format :: "formatter \<Rightarrow> pydict \<Rightarrow> LogRecord \<Rightarrow> (error + string) \<times> LogRecord" where
  "format (TextFormatter fmt df) ctx r = TextFormatter_format fmt df ctx r"
| "format (JsonFormatter ts_key df) ctx r = JsonFormatter_format ts_key df ctx r"

text \<open>
  A handler is its destination, its level and its formatter. The console handler carries
  its \<open>stream_safe\<close> flag; a rotating file handler carries the constructor's arguments
  \<open>filename\<close>, \<open>when\<close>, \<open>interval\<close>, \<open>backupCount\<close>, \<open>utc\<close>.
\<close>

datatype sink =
    StreamSafeConsoleHandler bool
  | TimedRotatingFileHandler string string int int bool

record Handler =
  sink :: sink
  hlevel :: nat
  formatter :: formatter

text \<open>
  What the sinks have written: the chunks sent to \<open>sys.stdout\<close>, the chunks appended
  to each log file (by base file name; the renaming of rotated files is not modelled), and
  the errors that \<open>Handler.handleError\<close> reported on \<open>sys.stderr\<close>.
\<close>

record written =
  stdout :: "string list"
  files :: "string \<Rightarrow> string list"
  stderr :: "error list"

definition nothing_written :: written where
  "nothing_written = \<lparr>stdout = [], files = (\<lambda>_. []), stderr = []\<rparr>"

definition write_sink :: "sink \<Rightarrow> string \<Rightarrow> written \<Rightarrow> written" where
  "write_sink k chunk out =
     (case k of
        StreamSafeConsoleHandler _ \<Rightarrow> out\<lparr>stdout := stdout out @ [chunk]\<rparr>
      | TimedRotatingFileHandler filename _ _ _ _ \<Rightarrow>
          out\<lparr>files := (files out)(filename := files out filename @ [chunk])\<rparr>)"

text \<open>
  \<open>logging.StreamHandler.emit\<close>: format, write the line and the terminator; an exception
  of the formatter is caught and handed to \<open>handleError\<close>.
\<close>

definition StreamHandler_emit :: "Handler \<Rightarrow> flow_vars \<Rightarrow> LogRecord \<Rightarrow> written \<Rightarrow> LogRecord \<times> written" where
  "StreamHandler_emit h fv r out =
     (case format (formatter h) (get_context fv) r of
        (Inl e, r') \<Rightarrow> (r', out\<lparr>stderr := stderr out @ [e]\<rparr>)
      | (Inr line, r') \<Rightarrow> (r', write_sink (sink h) (line @ [CHR 0x0A]) out))"

definition emit :: "Handler \<Rightarrow> flow_vars \<Rightarrow> LogRecord \<Rightarrow> written \<Rightarrow> LogRecord \<times> written" where
  "emit h fv r out =
     (case sink h of
        StreamSafeConsoleHandler safe \<Rightarrow>
          if safe \<and> is_streaming fv then (r, out) else StreamHandler_emit h fv r out
      | TimedRotatingFileHandler _ _ _ _ _ \<Rightarrow> StreamHandler_emit h fv r out)"

text \<open>
  \<open>build_handlers\<close>: console, text file, JSON file, each if enabled, in this order. The
  directory creation of \<open>_ensure_dir\<close> and the opening of the files act on the file
  system only and are left out.
\<close>

definition build_handlers :: "LogConfig \<Rightarrow> Handler list" where
  "build_handlers cfg =
     (let text_formatter = TextFormatter (text_fmt cfg) (datefmt cfg);
          json_formatter = JsonFormatter (json_ts_key cfg) (datefmt cfg)
      in (if console_enabled cfg
          then [\<lparr>sink = StreamSafeConsoleHandler (stream_safe cfg),
                 hlevel = level_number (level cfg),
                 formatter = (if console_format cfg = JsonFormat then json_formatter else text_formatter)\<rparr>]
          else [])
         @ (if text_file_enabled cfg
            then [\<lparr>sink = TimedRotatingFileHandler (text_file_path cfg) (rotation_when cfg)
                            (rotation_interval cfg) (rotation_backup_count cfg) (rotation_utc cfg),
                   hlevel = level_number (level cfg),
                   formatter = text_formatter\<rparr>]
            else [])
         @ (if json_file_enabled cfg
            then [\<lparr>sink = TimedRotatingFileHandler (json_file_path cfg) (rotation_when cfg)
                            (rotation_interval cfg) (rotation_backup_count cfg) (rotation_utc cfg),
                   hlevel = level_number (level cfg),
                   formatter = json_formatter\<rparr>]
            else []))"


section \<open>logger.py: the facade\<close>

text \<open>
  \<open>logging.getLogger\<close> keeps one \<open>Logger\<close> object per name; a new one has level
  \<open>NOTSET\<close>, propagates and has no handlers.
\<close>

record Logger =
  llevel :: nat
  propagate :: bool
  handlers :: "Handler list"

type_synonym loggerDict = "string \<Rightarrow> Logger option"

definition new_Logger :: Logger where
  "new_Logger = \<lparr>llevel = 0, propagate = True, handlers = []\<rparr>"

definition getLogger :: "string \<Rightarrow> loggerDict \<Rightarrow> Logger" where
  "getLogger n reg = (case reg n of None \<Rightarrow> new_Logger | Some l \<Rightarrow> l)"

record SafeLogger =
  logger :: string
  sanitize_extra_enabled :: bool

definition configure_logging :: "LogConfig \<Rightarrow> loggerDict \<Rightarrow> SafeLogger \<times> loggerDict" where
  "configure_logging cfg reg =
     (let l0 = getLogger (logger_name cfg) reg;
          l1 = l0\<lparr>llevel := level_number (level cfg), propagate := False\<rparr>;
          l2 = (if handlers l1 = [] then l1\<lparr>handlers := handlers l1 @ build_handlers cfg\<rparr> else l1)
      in (\<lparr>logger = logger_name cfg, sanitize_extra_enabled = sanitize_extra_flag cfg\<rparr>,
          reg(logger_name cfg \<mapsto> l2)))"

text \<open>
  \<open>Logger.makeRecord\<close>: every key of \<open>extra\<close> is written into the record, and a key
  that is \<open>message\<close>, \<open>asctime\<close> or already in \<open>record.__dict__\<close> raises \<open>KeyError\<close>.
\<close>

fun makeRecord_extra :: "pydict \<Rightarrow> LogRecord \<Rightarrow> error + LogRecord" where
  "makeRecord_extra [] r = Inr r"
| "makeRecord_extra ((k, v) # items) r =
     (if k \<in> {''message'', ''asctime''} \<or> k \<in> set standard_logrecord_keys \<union> fst ` set (attrs r)
      then Inl (KeyError k)
      else makeRecord_extra items (r\<lparr>attrs := AList.update k v (attrs r)\<rparr>))"

definition makeRecord ::
  "string \<Rightarrow> level \<Rightarrow> string \<Rightarrow> string \<Rightarrow> int \<Rightarrow> string \<Rightarrow> string option \<Rightarrow> nat
     \<Rightarrow> pydict option \<Rightarrow> error + LogRecord" where
  "makeRecord n lvl modname fn lno m exc now extra =
     makeRecord_extra (case extra of None \<Rightarrow> [] | Some e \<Rightarrow> e)
       \<lparr>name = n, msg = m, levelname = getLevelName lvl, levelno = level_number lvl,
        module = modname, funcName = fn, lineno = lno, created = now,
        exc_info = exc, exc_text = None, attrs = []\<rparr>"

fun callHandlers :: "Handler list \<Rightarrow> flow_vars \<Rightarrow> LogRecord \<Rightarrow> written \<Rightarrow> LogRecord \<times> written" where
  "callHandlers [] fv r out = (r, out)"
| "callHandlers (h # hs) fv r out =
     (if levelno r \<ge> hlevel h
      then (case emit h fv r out of (r', out') \<Rightarrow> callHandlers hs fv r' out')
      else callHandlers hs fv r out)"

text \<open>
  A level method of \<open>logging.Logger\<close> (\<open>info\<close>, \<open>error\<close>, ...): nothing happens below the
  logger's effective level (the root's \<open>WARNING\<close> when the logger's own level is
  \<open>NOTSET\<close>); otherwise the record is made and handed to the logger's handlers. The
  call site that \<open>findCaller\<close> reports is the line of the wrapper method in logger.py.
  Filters, \<open>logging.disable\<close> and the last-resort handler of a logger without handlers
  (it writes to \<open>sys.stderr\<close>) are left out: nothing in the repository installs or
  triggers them once \<open>configure_logging\<close> has run with a sink enabled.
\<close>

definition getEffectiveLevel :: "Logger \<Rightarrow> nat" where
  "getEffectiveLevel l = (if llevel l \<noteq> 0 then llevel l else 30)"

definition Logger_log ::
  "string \<Rightarrow> Logger \<Rightarrow> level \<Rightarrow> string \<Rightarrow> int \<Rightarrow> string \<Rightarrow> string option \<Rightarrow> nat
     \<Rightarrow> pydict option \<Rightarrow> flow_vars \<Rightarrow> written \<Rightarrow> error + written" where
  "Logger_log n l lvl fn lno m exc now extra fv out =
     (if level_number lvl \<ge> getEffectiveLevel l
      then (case makeRecord n lvl ''logger'' fn lno m exc now extra of
              Inl e \<Rightarrow> Inl e
            | Inr r \<Rightarrow> Inr (snd (callHandlers (handlers l) fv r out)))
      else Inr out)"

definition SafeLogger_log ::
  "level \<Rightarrow> string \<Rightarrow> int \<Rightarrow> string option \<Rightarrow> SafeLogger \<Rightarrow> loggerDict \<Rightarrow> string
     \<Rightarrow> pydict option \<Rightarrow> nat \<Rightarrow> flow_vars \<Rightarrow> written \<Rightarrow> error + written" where
  "SafeLogger_log lvl fn lno exc sl reg m extra now fv out =
     Logger_log (logger sl) (getLogger (logger sl) reg) lvl fn lno m exc now
       (sanitize_extra (sanitize_extra_enabled sl) extra) fv out"

definition debug where "debug = SafeLogger_log DEBUG ''debug'' 38 None"
definition info where "info = SafeLogger_log INFO ''info'' 41 None"
definition warning where "warning = SafeLogger_log WARNING ''warning'' 44 None"
definition error where "error = SafeLogger_log ERROR ''error'' 47 None"
definition critical where "critical = SafeLogger_log CRITICAL ''critical'' 50 None"

text \<open>\<open>exception\<close> logs at \<open>ERROR\<close> with the active exception, whose traceback text is \<open>t\<close>.\<close>

definition exception where "exception t = SafeLogger_log ERROR ''exception'' 53 (Some t)"



section \<open>Reading a JSON line back\<close>

text \<open>
  What it means for an emitted line to parse as JSON: \<open>json_loads\<close> is a reader for
  the JSON texts that are one object whose members are strings, numbers, \<open>true\<close>,
  \<open>false\<close> and \<open>null\<close>. It follows the JSON grammar: white space between tokens, the
  escapes of a string (a raw control character is rejected), and for a number an optional
  minus, an integer part without a leading zero, an optional fraction and an optional
  exponent. \<open>NaN\<close> and \<open>Infinity\<close> are no JSON tokens. A number is returned as its text.
  The members are returned in the order of the text. \<open>parse_members\<close> reads one member
  per unit of fuel; a text has fewer members than characters.
\<close>

datatype jval = JNull | JBool bool | JNumber string | JString string

definition hexval :: "char \<Rightarrow> nat option" where
  "hexval c =
     (let n = (of_char c :: nat)
      in if 48 \<le> n \<and> n \<le> 57 then Some (n - 48)
         else if 97 \<le> n \<and> n \<le> 102 then Some (n - 87)
         else if 65 \<le> n \<and> n \<le> 70 then Some (n - 55)
         else None)"

definition unescape :: "char \<Rightarrow> char option" where
  "unescape e =
     (if e = CHR 0x22 then Some (CHR 0x22)
      else if e = CHR 0x5C then Some (CHR 0x5C)
      else if e = CHR ''/'' then Some (CHR ''/'')
      else if e = CHR ''b'' then Some (CHR 0x08)
      else if e = CHR ''f'' then Some (CHR 0x0C)
      else if e = CHR ''n'' then Some (CHR 0x0A)
      else if e = CHR ''r'' then Some (CHR 0x0D)
      else if e = CHR ''t'' then Some (CHR 0x09)
      else None)"

definition push :: "'a \<Rightarrow> ('a list \<times> 'b) option \<Rightarrow> ('a list \<times> 'b) option" where
  "push x res = (case res of None \<Rightarrow> None | Some (xs, rest) \<Rightarrow> Some (x # xs, rest))"

text \<open>The characters of a string after its opening quote, up to the closing quote.\<close>

fun parse_chars :: "string \<Rightarrow> (string \<times> string) option" where
  "parse_chars [] = None"
| "parse_chars (c # cs) =
     (if c = CHR 0x22 then Some ([], cs)
      else if c = CHR 0x5C then
        (case cs of
           [] \<Rightarrow> None
         | e # cs1 \<Rightarrow>
             if e = CHR ''u'' then
               (case cs1 of
                  h1 # h2 # h3 # h4 # cs2 \<Rightarrow>
                    (case (hexval h1, hexval h2, hexval h3, hexval h4) of
                       (Some a, Some b, Some c', Some d) \<Rightarrow>
                         if a = 0 \<and> b = 0 then push (char_of (16 * c' + d)) (parse_chars cs2)
                         else None
                     | _ \<Rightarrow> None)
                | _ \<Rightarrow> None)
             else (case unescape e of
                     None \<Rightarrow> None
                   | Some c' \<Rightarrow> push c' (parse_chars cs1)))
      else if (of_char c :: nat) < 32 then None
      else push c (parse_chars cs))"

definition is_digit :: "char \<Rightarrow> bool" where
  "is_digit c = (48 \<le> (of_char c :: nat) \<and> (of_char c :: nat) \<le> 57)"

text \<open>
  The three parts of a number. Each returns the text it accepts and the rest; the
  fraction and the exponent may be absent.
\<close>

definition parse_int_part :: "string \<Rightarrow> (string \<times> string) option" where
  "parse_int_part s =
     (let ds = takeWhile is_digit s
      in if ds = [] then None
         else if hd ds = CHR ''0'' \<and> length ds > 1 then None
         else Some (ds, dropWhile is_digit s))"

definition parse_frac :: "string \<Rightarrow> (string \<times> string) option" where
  "parse_frac s =
     (case s of
        [] \<Rightarrow> Some ([], [])
      | c # t \<Rightarrow>
          if c = CHR ''.''
          then (if takeWhile is_digit t = [] then None
                else Some (c # takeWhile is_digit t, dropWhile is_digit t))
          else Some ([], s))"

definition parse_exp :: "string \<Rightarrow> (string \<times> string) option" where
  "parse_exp s =
     (case s of
        [] \<Rightarrow> Some ([], [])
      | c # t \<Rightarrow>
          if c = CHR ''e'' \<or> c = CHR ''E''
          then (let sg = (case t of
                            [] \<Rightarrow> []
                          | d # u \<Rightarrow> if d = CHR ''+'' \<or> d = CHR ''-'' then [d] else []);
                    t' = drop (length sg) t
                in if takeWhile is_digit t' = [] then None
                   else Some (c # sg @ takeWhile is_digit t', dropWhile is_digit t'))
          else Some ([], s))"

definition parse_number :: "string \<Rightarrow> (string \<times> string) option" where
  "parse_number s =
     (let sg = (case s of [] \<Rightarrow> [] | c # t \<Rightarrow> if c = CHR ''-'' then [c] else [])
      in case parse_int_part (drop (length sg) s) of
           None \<Rightarrow> None
         | Some (ip, s2) \<Rightarrow>
             (case parse_frac s2 of
                None \<Rightarrow> None
              | Some (fp, s3) \<Rightarrow>
                  (case parse_exp s3 of
                     None \<Rightarrow> None
                   | Some (ep, s4) \<Rightarrow> Some (sg @ ip @ fp @ ep, s4))))"

definition parse_value :: "string \<Rightarrow> (jval \<times> string) option" where
  "parse_value s =
     (if take 4 s = ''null'' then Some (JNull, drop 4 s)
      else if take 4 s = ''true'' then Some (JBool True, drop 4 s)
      else if take 5 s = ''false'' then Some (JBool False, drop 5 s)
      else (case s of
              [] \<Rightarrow> None
            | c # s' \<Rightarrow>
                if c = CHR 0x22
                then (case parse_chars s' of None \<Rightarrow> None | Some (x, rest) \<Rightarrow> Some (JString x, rest))
                else (case parse_number s of None \<Rightarrow> None | Some (n, rest) \<Rightarrow> Some (JNumber n, rest))))"

definition skip_ws :: "string \<Rightarrow> string" where
  "skip_ws s = dropWhile (\<lambda>c. c = CHR '' '' \<or> c = CHR 0x09 \<or> c = CHR 0x0A \<or> c = CHR 0x0D) s"

fun parse_members :: "nat \<Rightarrow> string \<Rightarrow> ((string \<times> jval) list \<times> string) option" where
  "parse_members 0 s = None"
| "parse_members (Suc fuel) s =
     (case skip_ws s of
        [] \<Rightarrow> None
      | q # s1 \<Rightarrow>
          if q \<noteq> CHR 0x22 then None
          else (case parse_chars s1 of
                  None \<Rightarrow> None
                | Some (k, s2) \<Rightarrow>
                    (case skip_ws s2 of
                       [] \<Rightarrow> None
                     | colon # s3 \<Rightarrow>
                         if colon \<noteq> CHR '':'' then None
                         else (case parse_value (skip_ws s3) of
                                 None \<Rightarrow> None
                               | Some (v, s4) \<Rightarrow>
                                   (case skip_ws s4 of
                                      [] \<Rightarrow> None
                                    | d # s5 \<Rightarrow>
                                        if d = CHR ''}'' then Some ([(k, v)], s5)
                                        else if d = CHR '','' then push (k, v) (parse_members fuel s5)
                                        else None)))))"

definition json_loads :: "string \<Rightarrow> (string \<times> jval) list option" where
  "json_loads s =
     (case skip_ws s of
        [] \<Rightarrow> None
      | b # s1 \<Rightarrow>
          if b \<noteq> CHR ''{'' then None
          else (case skip_ws s1 of
                  [] \<Rightarrow> None
                | c # s2 \<Rightarrow>
                    if c = CHR ''}'' then (if skip_ws s2 = [] then Some [] else None)
                    else (case parse_members (length s1) s1 of
                            None \<Rightarrow> None
                          | Some (kvs, rest) \<Rightarrow> if skip_ws rest = [] then Some kvs else None)))"

text \<open>
  The JSON value that a value of the formatter's object stands for: a number by the
  text \<open>json.dumps\<close> writes. A float that is not finite and an object that \<open>json.dumps\<close>
  rejects stand for none.
\<close>

fun nonfinite :: "pyval \<Rightarrow> bool" where
  "nonfinite (PFloat FNaN) = True"
| "nonfinite (PFloat (FInf neg)) = True"
| "nonfinite v = False"

fun json_of :: "pyval \<Rightarrow> jval option" where
  "json_of PNone = Some JNull"
| "json_of (PBool b) = Some (JBool b)"
| "json_of (PInt i) = Some (JNumber (str_int i))"
| "json_of (PFloat (FFinite neg m p)) = Some (JNumber (float_repr (FFinite neg m p)))"
| "json_of (PFloat f) = None"
| "json_of (PStr s) = Some (JString s)"
| "json_of (PObj r) = None"

fun json_of_items :: "pydict \<Rightarrow> (string \<times> jval) list option" where
  "json_of_items [] = Some []"
| "json_of_items ((k, v) # items) =
     (case json_of v of
        None \<Rightarrow> None
      | Some j \<Rightarrow> (case json_of_items items of None \<Rightarrow> None | Some js \<Rightarrow> Some ((k, j) # js)))"


section \<open>Reference inputs\<close>

text \<open>
  \<open>default_config df\<close> is what \<open>load_config\<close> returns when none of its environment
  variables is set, with \<open>df\<close> for the rendering of the default \<open>datefmt\<close>.
  \<open>sample_record extra\<close> is the record which \<open>info("hello", extra=extra)\<close> makes at
  time 0 on the logger \<open>app\<close>; \<open>no_loggers\<close> is the logger table of a fresh process.
\<close>

definition default_config :: "(nat \<Rightarrow> string) \<Rightarrow> LogConfig" where
  "default_config df =
     \<lparr>level = INFO, logger_name = ''app'', console_enabled = True, console_format = TextFormat,
      text_file_enabled = True, text_file_path = ''logs/app.log'',
      json_file_enabled = True, json_file_path = ''logs/app.json.log'',
      rotation_when = ''midnight'', rotation_interval = 1, rotation_backup_count = 7,
      rotation_utc = False, sanitize_extra_flag = True, stream_safe = True,
      stream_debug = False, datefmt = df, text_fmt = default_text_fmt, json_ts_key = ''ts''\<rparr>"

definition sample_record :: "pydict \<Rightarrow> LogRecord" where
  "sample_record extra =
     \<lparr>name = ''app'', msg = ''hello'', levelname = ''INFO'', levelno = 20, module = ''logger'',
      funcName = ''info'', lineno = 41, created = 0, exc_info = None, exc_text = None,
      attrs = extra\<rparr>"

definition no_loggers :: loggerDict where
  "no_loggers = Map.empty"

text \<open>\<open>encodable d\<close>: every value of the dictionary \<open>d\<close> is accepted by \<open>json.dumps\<close>.\<close>

definition encodable :: "pydict \<Rightarrow> bool" where
  "encodable d = (\<forall>v \<in> snd ` set d. \<exists>s. dumps_value v = Inr s)"

text \<open>\<open>jsonable d\<close>: every value of \<open>d\<close> stands for a JSON value.\<close>

definition jsonable :: "pydict \<Rightarrow> bool" where
  "jsonable d = (\<forall>v \<in> snd ` set d. \<exists>j. json_of v = Some j)"


section \<open>Lemmas used throughout\<close>

lemmas std_defs = STANDARD_KEYS_def standard_logrecord_keys_def

lemmas pipeline_defs = info_def SafeLogger_log_def configure_logging_def default_config_def Let_def
  getLogger_def new_Logger_def build_handlers_def Logger_log_def getEffectiveLevel_def
  sanitize_extra_def std_defs makeRecord_def emit_def StreamHandler_emit_def set_streaming_def
  clear_context_def is_streaming_def get_context_def TextFormatter_format_def
  Formatter_format_def usesTime_def default_text_fmt_def record_dict_def getMessage_def
  text_extras_def write_sink_def JsonFormatter_format_def no_loggers_def flow_default_def
  nothing_written_def

lemma digits_0: "digits 0 = ''0''"
  by (simp add: digits.simps digit_char_def)


section \<open>The context store\<close>

lemma map_of_set_context_loop:
  "distinct (map fst kwargs) \<Longrightarrow>
   map_of (set_context_loop kwargs ctx) k =
     (case map_of kwargs k of
        None \<Rightarrow> map_of ctx k
      | Some v \<Rightarrow> if v = PNone then map_of ctx k else Some v)"
proof (induction kwargs arbitrary: ctx)
  case Nil
  then show ?case by simp
next
  case (Cons p kwargs)
  obtain k' v' where p: "p = (k', v')" by (cases p)
  from Cons.prems p have notin: "k' \<notin> fst ` set kwargs" and d: "distinct (map fst kwargs)"
    by auto
  from notin have none: "map_of kwargs k' = None"
    by (simp add: map_of_eq_None_iff)
  show ?case
    using Cons.IH [OF d] none p
    by (auto simp: update_conv' split: option.splits)
qed

text \<open>
  C7. In a call \<open>set_context(**kwargs)\<close> a key given with the value \<open>None\<close> keeps the
  binding (or the absence) it had in the store before the call, and a key given with any
  other value is bound to that value afterwards. The keys of \<open>kwargs\<close> are distinct, as
  keyword arguments are.
\<close>

theorem set_context_skips_None:
  assumes "distinct (map fst kwargs)"
  shows "((k, PNone) \<in> set kwargs \<longrightarrow>
            map_of (get_context (set_context kwargs s)) k = map_of (get_context s) k) \<and>
         ((k, v) \<in> set kwargs \<and> v \<noteq> PNone \<longrightarrow>
            map_of (get_context (set_context kwargs s)) k = Some v)"
proof -
  have g: "get_context (set_context kwargs s) = set_context_loop kwargs (get_context s)"
    by (simp add: get_context_def set_context_def)
  show ?thesis
    using assms by (auto simp: g map_of_set_context_loop)
qed

theorem set_context_skips_None_witness:
  "distinct (map fst [(''client_ip'', PNone), (''service'', PStr ''deploy'')]) \<and>
   map_of (get_context (set_context [(''client_ip'', PNone), (''service'', PStr ''deploy'')]
      (set_context [(''client_ip'', PStr ''10.0.0.1'')] flow_default))) ''client_ip''
     = Some (PStr ''10.0.0.1'') \<and>
   map_of (get_context (set_context [(''client_ip'', PNone), (''service'', PStr ''deploy'')]
      flow_default)) ''client_ip'' = None \<and>
   map_of (get_context (set_context [(''client_ip'', PNone), (''service'', PStr ''deploy'')]
      flow_default)) ''service'' = Some (PStr ''deploy'')"
  using set_context_skips_None [of "[(''client_ip'', PNone), (''service'', PStr ''deploy'')]"
      "''client_ip''" "set_context [(''client_ip'', PStr ''10.0.0.1'')] flow_default" PNone]
    set_context_skips_None [of "[(''client_ip'', PNone), (''service'', PStr ''deploy'')]"
      "''client_ip''" flow_default PNone]
    set_context_skips_None [of "[(''client_ip'', PNone), (''service'', PStr ''deploy'')]"
      "''service''" flow_default "PStr ''deploy''"]
  by (simp add: get_context_def set_context_def flow_default_def)


section \<open>Sanitization of the extra fields\<close>

text \<open>
  C1. For the extra mapping \<open>{"name": 1, "name_extra": 2}\<close> the reserved key \<open>name\<close> is
  renamed to \<open>name_extra\<close>, and the caller's own \<open>name_extra\<close> then overwrites it: the
  sanitized mapping is \<open>{"name_extra": 2}\<close>, the value 1 given for \<open>name\<close> is lost.
\<close>

theorem sanitize_extra_rename_clash:
  "sanitize_extra True (Some [(''name'', PInt 1), (''name_extra'', PInt 2)])
     = Some [(''name_extra'', PInt 2)]"
  by (simp add: sanitize_extra_def std_defs)

lemma update_fresh: "k \<notin> fst ` set d \<Longrightarrow> AList.update k v d = d @ [(k, v)]"
  by (induction d) auto

lemma sanitize_loop_append:
  "distinct (map fst (acc @ map (\<lambda>(k, v). (if k \<in> set STANDARD_KEYS then k @ ''_extra'' else k, v)) e))
   \<Longrightarrow> sanitize_loop e acc
         = acc @ map (\<lambda>(k, v). (if k \<in> set STANDARD_KEYS then k @ ''_extra'' else k, v)) e"
proof (induction e arbitrary: acc)
  case Nil
  then show ?case by simp
next
  case (Cons p e)
  obtain k v where p: "p = (k, v)" by (cases p)
  let ?k' = "if k \<in> set STANDARD_KEYS then k @ ''_extra'' else k"
  from Cons.prems p have fresh: "?k' \<notin> fst ` set acc"
    by (auto split: if_splits)
  have "distinct (map fst ((acc @ [(?k', v)]) @
          map (\<lambda>(k, v). (if k \<in> set STANDARD_KEYS then k @ ''_extra'' else k, v)) e))"
    using Cons.prems p by simp
  from Cons.IH [OF this] have
    IH: "sanitize_loop e (acc @ [(?k', v)])
           = acc @ (?k', v) # map (\<lambda>(k, v). (if k \<in> set STANDARD_KEYS then k @ ''_extra'' else k, v)) e"
    by simp
  show ?case
  proof (cases "k \<in> set STANDARD_KEYS")
    case True
    with fresh IH p show ?thesis by (simp add: update_fresh)
  next
    case False
    with fresh IH p show ?thesis by (simp add: update_fresh)
  qed
qed

text \<open>
  When no key of the mapping is the renamed form of a reserved key of the same mapping,
  sanitization is the renaming of the reserved keys, entry by entry: nothing is dropped,
  no value changes, and the order is kept.
\<close>

lemma sanitize_extra_clash_free:
  assumes "distinct (map fst e)" and "e \<noteq> []"
    and "\<forall>k \<in> fst ` set e. k \<in> set STANDARD_KEYS \<longrightarrow> k @ ''_extra'' \<notin> fst ` set e"
  shows "sanitize_extra True (Some e)
           = Some (map (\<lambda>(k, v). (if k \<in> set STANDARD_KEYS then k @ ''_extra'' else k, v)) e)"
proof -
  let ?ren = "\<lambda>k. if k \<in> set STANDARD_KEYS then k @ ''_extra'' else k"
  have m: "map fst (map (\<lambda>(k, v). (?ren k, v)) e) = map ?ren (map fst e)"
    by (induction e) auto
  have "inj_on ?ren (set (map fst e))"
  proof (rule inj_onI)
    fix x y assume x: "x \<in> set (map fst e)" and y: "y \<in> set (map fst e)" and eq: "?ren x = ?ren y"
    show "x = y"
    proof (cases "x \<in> set STANDARD_KEYS"; cases "y \<in> set STANDARD_KEYS")
      assume "x \<in> set STANDARD_KEYS" "y \<notin> set STANDARD_KEYS"
      with eq assms(3) x y show ?thesis by auto
    next
      assume "x \<notin> set STANDARD_KEYS" "y \<in> set STANDARD_KEYS"
      with eq assms(3) x y show ?thesis by auto
    qed (use eq in auto)
  qed
  with assms(1) have d: "distinct (map ?ren (map fst e))"
    by (simp only: distinct_map)
  have "distinct (map fst ([] @ map (\<lambda>(k, v). (?ren k, v)) e))"
    unfolding append_Nil m by (rule d)
  from sanitize_loop_append [OF this] assms(2) show ?thesis
    by (simp add: sanitize_extra_def)
qed

lemma renamed_not_standard: "k0 \<in> set STANDARD_KEYS \<Longrightarrow> k0 @ ''_extra'' \<notin> set STANDARD_KEYS"
  by (auto simp: std_defs)

lemma map_of_sanitize_loop_keep:
  assumes "k \<notin> set STANDARD_KEYS"
    and "\<forall>k0 \<in> fst ` set e. k0 \<in> set STANDARD_KEYS \<longrightarrow> k0 @ ''_extra'' \<noteq> k"
    and "distinct (map fst e)"
  shows "map_of (sanitize_loop e acc) k =
           (case map_of e k of Some v \<Rightarrow> Some v | None \<Rightarrow> map_of acc k)"
  using assms(2,3)
proof (induction e arbitrary: acc)
  case Nil
  then show ?case by simp
next
  case (Cons p e)
  obtain k0 v0 where p: "p = (k0, v0)" by (cases p)
  from Cons.prems p have d: "distinct (map fst e)" and notin: "k0 \<notin> fst ` set e"
    and r: "\<forall>k0 \<in> fst ` set e. k0 \<in> set STANDARD_KEYS \<longrightarrow> k0 @ ''_extra'' \<noteq> k"
    and r0: "k0 \<in> set STANDARD_KEYS \<longrightarrow> k0 @ ''_extra'' \<noteq> k"
    by auto
  note IH = Cons.IH [OF r d]
  show ?case
  proof (cases "k0 \<in> set STANDARD_KEYS")
    case True
    with assms(1) have "k0 \<noteq> k" by auto
    with True r0 p show ?thesis
      by (simp add: IH update_conv' split: option.splits)
  next
    case False
    show ?thesis
    proof (cases "k0 = k")
      case True
      with notin have "map_of e k = None" by (simp add: map_of_eq_None_iff)
      with True False p show ?thesis
        by (simp add: IH update_conv')
    next
      case ne: False
      with False p show ?thesis
        by (simp add: IH update_conv' split: option.splits)
    qed
  qed
qed

lemma sanitize_loop_keys:
  assumes "\<forall>k \<in> fst ` set acc. k \<notin> set STANDARD_KEYS"
  shows "\<forall>k \<in> fst ` set (sanitize_loop e acc). k \<notin> set STANDARD_KEYS"
  using assms
proof (induction e arbitrary: acc)
  case Nil
  then show ?case by simp
next
  case (Cons p e)
  obtain k0 v0 where p: "p = (k0, v0)" by (cases p)
  show ?case
  proof (cases "k0 \<in> set STANDARD_KEYS")
    case True
    from Cons.prems renamed_not_standard [OF True]
    have "\<forall>k \<in> fst ` set (AList.update (k0 @ ''_extra'') v0 acc). k \<notin> set STANDARD_KEYS"
      by (simp add: dom_update)
    from Cons.IH [OF this] True p show ?thesis by simp
  next
    case False
    with Cons.prems
    have "\<forall>k \<in> fst ` set (AList.update k0 v0 acc). k \<notin> set STANDARD_KEYS"
      by (simp add: dom_update)
    from Cons.IH [OF this] False p show ?thesis by simp
  qed
qed

lemma distinct_sanitize_loop:
  "distinct (map fst acc) \<Longrightarrow> distinct (map fst (sanitize_loop e acc))"
  by (induction e arbitrary: acc) (auto simp: distinct_update)


section \<open>Field precedence in the two formatters\<close>

lemma map_of_setdefault:
  "map_of (setdefault k v d) k' =
     (case map_of d k' of Some x \<Rightarrow> Some x | None \<Rightarrow> if k' = k then Some v else None)"
proof (cases "k \<in> fst ` set d")
  case True
  then obtain x where "map_of d k = Some x"
    by (cases "map_of d k") (auto simp: map_of_eq_None_iff)
  with True show ?thesis
    by (auto simp: setdefault_def split: option.splits)
next
  case False
  then have "map_of d k = None"
    by (simp add: map_of_eq_None_iff)
  with False show ?thesis
    by (auto simp: setdefault_def map_add_def split: option.splits)
qed

lemma map_of_text_ctx_loop:
  "map_of (text_ctx_loop ctx extras) k =
     (case map_of extras k of Some x \<Rightarrow> Some x | None \<Rightarrow> map_of ctx k)"
  by (induction ctx arbitrary: extras) (auto simp: map_of_setdefault split: option.splits)

lemma map_of_filter_key:
  "map_of (filter (\<lambda>(k, v). P k) d) k = (if P k then map_of d k else None)"
  by (induction d) auto

lemma not_standard: "k \<notin> set STANDARD_KEYS \<Longrightarrow>
   k \<notin> set standard_logrecord_keys \<and> k \<noteq> ''message'' \<and> k \<noteq> ''asctime''"
  by (simp add: STANDARD_KEYS_def)

lemma map_of_record_dict:
  "k \<notin> set standard_logrecord_keys \<Longrightarrow> map_of (record_dict r) k = map_of (attrs r) k"
  by (simp add: record_dict_def standard_logrecord_keys_def)

lemma map_of_text_extras:
  assumes "k \<notin> set STANDARD_KEYS" and "map_of (attrs r) k = Some v"
  shows "map_of (text_extras r ctx) k = Some v"
  using assms not_standard [OF assms(1)]
  by (simp add: text_extras_def map_of_text_ctx_loop map_of_filter_key map_of_record_dict)

lemma attrs_Formatter_format:
  assumes "Formatter_format fmt df r = (res, r')" and "k \<noteq> ''message''" and "k \<noteq> ''asctime''"
  shows "map_of (attrs r') k = map_of (attrs r) k"
  using assms
  by (auto simp: Formatter_format_def Let_def update_conv' split: sum.splits option.splits if_splits)

lemma tail_tokens_ok:
  assumes "\<forall>k \<in> set ks. \<exists>v s. map_of extras k = Some v \<and> py_str v = Inr s"
  shows "\<exists>ts. tail_tokens ks extras = Inr ts \<and>
           (\<forall>k v s. k \<in> set ks \<and> map_of extras k = Some v \<and> py_str v = Inr s
                \<longrightarrow> (k @ ''='' @ s) \<in> set ts) \<and>
           (\<forall>t \<in> set ts. \<exists>k v s. map_of extras k = Some v \<and> py_str v = Inr s \<and> t = k @ ''='' @ s)"
  using assms
proof (induction ks)
  case Nil
  then show ?case by simp
next
  case (Cons k ks)
  from Cons.prems obtain v s where kv: "map_of extras k = Some v" "py_str v = Inr s"
    by auto
  from Cons obtain ts where ts: "tail_tokens ks extras = Inr ts"
    "\<forall>k v s. k \<in> set ks \<and> map_of extras k = Some v \<and> py_str v = Inr s
                \<longrightarrow> (k @ ''='' @ s) \<in> set ts"
    "\<forall>t \<in> set ts. \<exists>k v s. map_of extras k = Some v \<and> py_str v = Inr s \<and> t = k @ ''='' @ s"
    by auto
  have "tail_tokens (k # ks) extras = Inr ((k @ ''='' @ s) # ts)"
    using kv ts(1) by simp
  moreover have "\<forall>k' v' s'. k' \<in> set (k # ks) \<and> map_of extras k' = Some v' \<and> py_str v' = Inr s'
                \<longrightarrow> (k' @ ''='' @ s') \<in> set ((k @ ''='' @ s) # ts)"
    using kv ts(2) by auto
  moreover have "\<forall>t \<in> set ((k @ ''='' @ s) # ts).
       \<exists>k v s. map_of extras k = Some v \<and> py_str v = Inr s \<and> t = k @ ''='' @ s"
    using kv ts(3) by auto
  ultimately show ?case by blast
qed

lemma json_record_loop_notin:
  "k \<notin> fst ` set items \<Longrightarrow> map_of (json_record_loop items data) k = map_of data k"
  by (induction items arbitrary: data) (auto simp: update_conv')

lemma json_record_loop_in:
  assumes "k \<notin> set standard_logrecord_keys" and "k \<noteq> ''message''"
    and "distinct (map fst items)" and "map_of items k = Some v"
  shows "map_of (json_record_loop items data) k = Some (safe_json_value v)"
  using assms(3,4)
proof (induction items arbitrary: data)
  case Nil
  then show ?case by simp
next
  case (Cons p items)
  obtain k' v' where p: "p = (k', v')" by (cases p)
  show ?case
  proof (cases "k' = k")
    case True
    with Cons.prems p have "v' = v" and "k \<notin> fst ` set items" by auto
    with True p assms(1,2) show ?thesis
      by (simp add: json_record_loop_notin update_conv')
  next
    case False
    with Cons.prems p have "distinct (map fst items)" and "map_of items k = Some v" by auto
    from Cons.IH [OF this] p show ?thesis by simp
  qed
qed

lemma json_record_loop_append:
  "json_record_loop (xs @ ys) data = json_record_loop ys (json_record_loop xs data)"
  by (induction xs arbitrary: data) auto

lemma json_record_loop_record_dict:
  "json_record_loop (record_dict r) data = json_record_loop (attrs r) data"
  by (simp add: record_dict_def json_record_loop_append standard_logrecord_keys_def)

lemma map_of_json_data_extra:
  assumes "distinct (map fst (attrs r))" and "k \<notin> set STANDARD_KEYS"
    and "map_of (attrs r) k = Some v"
  shows "map_of (json_data ts_key df ctx r) k =
           (if k = ''exc'' \<and> exc_info r \<noteq> None then map_option PStr (exc_info r)
            else Some (safe_json_value v))"
  using json_record_loop_in [OF _ _ assms(1,3), of "json_ctx_loop ctx (json_base ts_key df r)"]
    not_standard [OF assms(2)]
  by (auto simp: json_data_def Let_def json_record_loop_record_dict update_conv'
      split: option.splits)

lemma makeRecord_sample:
  "makeRecord ''app'' INFO ''logger'' ''info'' 41 ''hello'' None 0 (Some [(''a'', PInt 2)])
     = Inr (sample_record [(''a'', PInt 2)])"
  by (simp add: makeRecord_def sample_record_def std_defs)

text \<open>
  C2 (as the code has it). Let the key \<open>k\<close> be bound to \<open>v\<close> by the extra fields of the
  record (after sanitization no such key is a reserved one) and to \<open>w\<close> by the ambient
  context. The JSON formatter's object binds \<open>k\<close> to \<open>v\<close> in its \<open>_safe_json_value\<close>
  form, except that the traceback of a record with exception information is written
  under \<open>exc\<close> after the extra fields. In the text formatter the merged fields bind
  \<open>k\<close> to \<open>v\<close>, the tail holds the piece \<open>k=v\<close>, and every piece of the tail renders a
  binding of the merged fields. The ambient \<open>w\<close> is in neither output.
\<close>

theorem extra_wins_over_context:
  assumes "distinct (map fst (attrs r))" and "k \<notin> set STANDARD_KEYS"
    and "map_of (attrs r) k = Some v" and "map_of ctx k = Some w"
  shows "map_of (json_data ts_key df ctx r) k =
           (if k = ''exc'' \<and> exc_info r \<noteq> None then map_option PStr (exc_info r)
            else Some (safe_json_value v)) \<and>
         (\<forall>base r'. Formatter_format fmt df r = (Inr base, r') \<and>
             (\<forall>x \<in> snd ` set (text_extras r' ctx). \<exists>s. py_str x = Inr s) \<longrightarrow>
             (\<exists>ts sv. py_str v = Inr sv \<and>
                TextFormatter_format fmt df ctx r = (Inr (base @ '' | '' @ join '' '' ts), r') \<and>
                map_of (text_extras r' ctx) k = Some v \<and>
                (k @ ''='' @ sv) \<in> set ts \<and>
                (\<forall>t \<in> set ts. \<exists>k' v' s'. map_of (text_extras r' ctx) k' = Some v' \<and>
                    py_str v' = Inr s' \<and> t = k' @ ''='' @ s')))"
proof (intro conjI allI impI)
  show "map_of (json_data ts_key df ctx r) k =
           (if k = ''exc'' \<and> exc_info r \<noteq> None then map_option PStr (exc_info r)
            else Some (safe_json_value v))"
    by (rule map_of_json_data_extra [OF assms(1,2,3)])
next
  fix base r'
  assume h: "Formatter_format fmt df r = (Inr base, r') \<and>
             (\<forall>x \<in> snd ` set (text_extras r' ctx). \<exists>s. py_str x = Inr s)"
  let ?extras = "text_extras r' ctx"
  from h have ff: "Formatter_format fmt df r = (Inr base, r')"
    and strs: "\<forall>x \<in> snd ` set ?extras. \<exists>s. py_str x = Inr s" by auto
  from not_standard [OF assms(2)] have "k \<noteq> ''message''" "k \<noteq> ''asctime''" by auto
  from attrs_Formatter_format [OF ff this] assms(3) have "map_of (attrs r') k = Some v"
    by simp
  from map_of_text_extras [OF assms(2) this] have kv: "map_of ?extras k = Some v" .
  then have kin: "(k, v) \<in> set ?extras" by (rule map_of_SomeD)
  then have ne: "?extras \<noteq> []" by auto
  from kin strs obtain sv where sv: "py_str v = Inr sv" by force
  have "\<forall>k' \<in> set (sort (map fst ?extras)). \<exists>v' s'. map_of ?extras k' = Some v' \<and> py_str v' = Inr s'"
  proof
    fix k' assume "k' \<in> set (sort (map fst ?extras))"
    then have "k' \<in> fst ` set ?extras" by simp
    then obtain v' where v': "map_of ?extras k' = Some v'"
      by (cases "map_of ?extras k'") (auto simp: map_of_eq_None_iff)
    then have "(k', v') \<in> set ?extras" by (rule map_of_SomeD)
    with strs obtain s' where "py_str v' = Inr s'" by force
    with v' show "\<exists>v' s'. map_of ?extras k' = Some v' \<and> py_str v' = Inr s'" by blast
  qed
  from tail_tokens_ok [OF this] obtain ts where ts:
    "tail_tokens (sort (map fst ?extras)) ?extras = Inr ts"
    "\<forall>k v s. k \<in> set (sort (map fst ?extras)) \<and> map_of ?extras k = Some v \<and> py_str v = Inr s
                \<longrightarrow> (k @ ''='' @ s) \<in> set ts"
    "\<forall>t \<in> set ts. \<exists>k v s. map_of ?extras k = Some v \<and> py_str v = Inr s \<and> t = k @ ''='' @ s"
    by blast
  have fmt: "TextFormatter_format fmt df ctx r = (Inr (base @ '' | '' @ join '' '' ts), r')"
    using ff ne ts(1) by (simp add: TextFormatter_format_def Let_def)
  have "k \<in> set (sort (map fst ?extras))"
    using kin by force
  with ts(2) kv sv have "(k @ ''='' @ sv) \<in> set ts" by blast
  with sv fmt kv ts(3)
  show "\<exists>ts sv. py_str v = Inr sv \<and>
                TextFormatter_format fmt df ctx r = (Inr (base @ '' | '' @ join '' '' ts), r') \<and>
                map_of (text_extras r' ctx) k = Some v \<and>
                (k @ ''='' @ sv) \<in> set ts \<and>
                (\<forall>t \<in> set ts. \<exists>k' v' s'. map_of (text_extras r' ctx) k' = Some v' \<and>
                    py_str v' = Inr s' \<and> t = k' @ ''='' @ s')"
    by blast
qed

theorem extra_wins_over_context_witness:
  "distinct (map fst (attrs (sample_record [(''a'', PInt 2)]))) \<and>
   ''a'' \<notin> set STANDARD_KEYS \<and>
   map_of (attrs (sample_record [(''a'', PInt 2)])) ''a'' = Some (PInt 2) \<and>
   map_of [(''a'', PInt 1)] ''a'' = Some (PInt 1) \<and>
   map_of (json_data ''ts'' digits [(''a'', PInt 1)] (sample_record [(''a'', PInt 2)])) ''a''
     = Some (PInt 2) \<and>
   fst (TextFormatter_format default_text_fmt digits [(''a'', PInt 1)]
          (sample_record [(''a'', PInt 2)])) = Inr ''[0] [INFO] hello | a=2''"
proof -
  have h1: "distinct (map fst (attrs (sample_record [(''a'', PInt 2)])))"
    by (simp add: sample_record_def)
  have h2: "''a'' \<notin> set STANDARD_KEYS"
    by (simp add: std_defs)
  have h3: "map_of (attrs (sample_record [(''a'', PInt 2)])) ''a'' = Some (PInt 2)"
    by (simp add: sample_record_def)
  have h4: "map_of [(''a'', PInt 1)] ''a'' = Some (PInt 1)"
    by simp
  have j: "map_of (json_data ''ts'' digits [(''a'', PInt 1)] (sample_record [(''a'', PInt 2)])) ''a''
     = Some (PInt 2)"
    using extra_wins_over_context [OF h1 h2 h3 h4, of "''ts''" digits default_text_fmt]
    by (simp add: safe_json_value_def)
  have t: "fst (TextFormatter_format default_text_fmt digits [(''a'', PInt 1)]
          (sample_record [(''a'', PInt 2)])) = Inr ''[0] [INFO] hello | a=2''"
    by code_simp
  from h1 h2 h3 h4 j t show ?thesis by blast
qed


text \<open>
  C2 (as stated). For \<open>exception("failed", extra={"exc": 2})\<close> with the ambient context
  \<open>{"exc": 1}\<close> the JSON object binds \<open>exc\<close> to the traceback text, not to the extra
  value 2.
\<close>

theorem traceback_overrides_extra:
  "makeRecord ''app'' ERROR ''logger'' ''exception'' 53 ''failed'' (Some ''Traceback'') 0
       (sanitize_extra True (Some [(''exc'', PInt 2)]))
     = Inr ((sample_record [(''exc'', PInt 2)])
              \<lparr>msg := ''failed'', levelname := ''ERROR'', levelno := 40,
               funcName := ''exception'', lineno := 53, exc_info := Some ''Traceback''\<rparr>) \<and>
   map_of (json_data ''ts'' digits [(''exc'', PInt 1)]
             ((sample_record [(''exc'', PInt 2)])
                \<lparr>msg := ''failed'', levelname := ''ERROR'', levelno := 40,
                 funcName := ''exception'', lineno := 53, exc_info := Some ''Traceback''\<rparr>))
          ''exc''
     = Some (PStr ''Traceback'')"
  by (simp add: makeRecord_def sanitize_extra_def std_defs sample_record_def json_data_def
      Let_def update_conv')


section \<open>Serialization fallback and the object of the JSON formatter\<close>

lemma dumps_safe_json_value: "\<exists>s. dumps_value (safe_json_value v) = Inr s"
proof (cases "dumps_value v")
  case (Inr s)
  then show ?thesis by (auto simp: safe_json_value_def)
next
  case (Inl e)
  then show ?thesis by (cases "py_str v") (auto simp: safe_json_value_def)
qed

lemma snd_set_update: "snd ` set (AList.update k v d) \<subseteq> insert v (snd ` set d)"
  by (induction d) auto

lemma encodable_update:
  "encodable d \<Longrightarrow> \<exists>s. dumps_value v = Inr s \<Longrightarrow> encodable (AList.update k v d)"
  unfolding encodable_def using snd_set_update [of k v d] by blast

lemma encodable_json_ctx_loop: "encodable data \<Longrightarrow> encodable (json_ctx_loop ctx data)"
  by (induction ctx arbitrary: data) (auto simp: encodable_update dumps_safe_json_value)

lemma encodable_json_record_loop: "encodable data \<Longrightarrow> encodable (json_record_loop items data)"
  by (induction items arbitrary: data) (auto simp: encodable_update dumps_safe_json_value)

lemma encodable_json_base: "encodable (json_base ts_key df r)"
  unfolding json_base_def
  by (intro encodable_update) (simp_all add: encodable_def)

lemma encodable_json_data: "encodable (json_data ts_key df ctx r)"
  by (auto simp: json_data_def Let_def encodable_update encodable_json_record_loop
      encodable_json_ctx_loop encodable_json_base split: option.splits)

lemma dumps_items_encodable: "encodable d \<Longrightarrow> \<exists>s. dumps_items d = Inr s"
proof (induction d)
  case Nil
  then show ?case by simp
next
  case (Cons p d)
  obtain k v where p: "p = (k, v)" by (cases p)
  from Cons.prems p obtain sv where sv: "dumps_value v = Inr sv"
    by (auto simp: encodable_def)
  from Cons.prems have "encodable d" by (simp add: encodable_def)
  with Cons.IH obtain rest where "dumps_items d = Inr rest" by blast
  with sv p show ?case by simp
qed

lemma JsonFormatter_format_total: "\<exists>line. JsonFormatter_format ts_key df ctx r = (Inr line, r)"
  using dumps_items_encodable [OF encodable_json_data [of ts_key df ctx r]]
  by (auto simp: JsonFormatter_format_def dumps_dict_def)

lemma keys_update: "fst ` set data \<subseteq> fst ` set (AList.update k v data)"
  by (auto simp: dom_update)

lemma keys_json_ctx_loop: "fst ` set data \<subseteq> fst ` set (json_ctx_loop ctx data)"
proof (induction ctx arbitrary: data)
  case Nil
  then show ?case by simp
next
  case (Cons p ctx)
  obtain k v where p: "p = (k, v)" by (cases p)
  show ?case
  proof (cases "k \<notin> fst ` set data")
    case True
    then have "json_ctx_loop (p # ctx) data = json_ctx_loop ctx (AList.update k (safe_json_value v) data)"
      by (simp add: p)
    with subset_trans [OF keys_update Cons.IH, of data k "safe_json_value v"]
    show ?thesis by simp
  next
    case False
    then have "json_ctx_loop (p # ctx) data = json_ctx_loop ctx data"
      by (simp add: p)
    with Cons.IH [of data] show ?thesis by simp
  qed
qed

lemma keys_json_record_loop: "fst ` set data \<subseteq> fst ` set (json_record_loop items data)"
proof (induction items arbitrary: data)
  case Nil
  then show ?case by simp
next
  case (Cons p items)
  obtain k v where p: "p = (k, v)" by (cases p)
  show ?case
  proof (cases "k \<in> set standard_logrecord_keys \<or> k \<in> {''message''}")
    case True
    then have "json_record_loop (p # items) data = json_record_loop items data"
      by (simp add: p)
    with Cons.IH [of data] show ?thesis by simp
  next
    case False
    then have "json_record_loop (p # items) data
                 = json_record_loop items (AList.update k (safe_json_value v) data)"
      by (simp add: p)
    with subset_trans [OF keys_update Cons.IH, of data k "safe_json_value v"]
    show ?thesis by simp
  qed
qed

lemma keys_json_base:
  "fst ` set (json_base ts_key df r)
     = {ts_key, ''level'', ''logger'', ''message'', ''module'', ''func'', ''line''}"
  by (auto simp: json_base_def dom_update)

lemma keys_json_data:
  "{ts_key, ''level'', ''logger'', ''message'', ''module'', ''func'', ''line''}
     \<subseteq> fst ` set (json_data ts_key df ctx r)"
proof -
  let ?d = "json_record_loop (record_dict r) (json_ctx_loop ctx (json_base ts_key df r))"
  have "fst ` set (json_base ts_key df r) \<subseteq> fst ` set ?d"
    using keys_json_ctx_loop [of "json_base ts_key df r" ctx]
      keys_json_record_loop [of "json_ctx_loop ctx (json_base ts_key df r)" "record_dict r"]
    by blast
  moreover have "fst ` set ?d \<subseteq> fst ` set (json_data ts_key df ctx r)"
    by (auto simp: json_data_def Let_def dom_update split: option.splits)
  ultimately show ?thesis
    unfolding keys_json_base by blast
qed

lemma distinct_json_ctx_loop:
  "distinct (map fst data) \<Longrightarrow> distinct (map fst (json_ctx_loop ctx data))"
  by (induction ctx arbitrary: data) (auto simp: distinct_update)

lemma distinct_json_record_loop:
  "distinct (map fst data) \<Longrightarrow> distinct (map fst (json_record_loop items data))"
  by (induction items arbitrary: data) (auto simp: distinct_update)

lemma distinct_json_data: "distinct (map fst (json_data ts_key df ctx r))"
proof -
  have "distinct (map fst (json_base ts_key df r))"
    unfolding json_base_def by (intro distinct_update) simp
  then show ?thesis
    by (auto simp: json_data_def Let_def distinct_update distinct_json_ctx_loop
        distinct_json_record_loop split: option.splits)
qed

text \<open>
  C8 (as the code has it). For every record and every ambient context
  \<open>JsonFormatter.format\<close> returns a line; reading the line back as JSON gives the
  formatter's object, whose keys are distinct and include the configured timestamp key,
  \<open>level\<close>, \<open>logger\<close>, \<open>message\<close>, \<open>module\<close>, \<open>func\<close> and \<open>line\<close>.
\<close>


lemma map_of_json_ctx_loop:
  "map_of (json_ctx_loop ctx data) k =
     (case map_of data k of
        Some x \<Rightarrow> Some x
      | None \<Rightarrow> map_option safe_json_value (map_of ctx k))"
proof (induction ctx arbitrary: data)
  case Nil
  then show ?case by (simp split: option.splits)
next
  case (Cons p ctx)
  obtain k' v' where p: "p = (k', v')" by (cases p)
  show ?case
  proof (cases "k' \<in> fst ` set data")
    case True
    then obtain x where "map_of data k' = Some x"
      by (cases "map_of data k'") (auto simp: map_of_eq_None_iff)
    with True p show ?thesis
      by (auto simp: Cons.IH split: option.splits)
  next
    case False
    then have "map_of data k' = None" by (simp add: map_of_eq_None_iff)
    with False p show ?thesis
      by (auto simp: Cons.IH update_conv' split: option.splits)
  qed
qed

lemma map_of_json_data_context:
  assumes "map_of ctx k = Some v"
    and "k \<notin> {ts_key, ''level'', ''logger'', ''message'', ''module'', ''func'', ''line''}"
    and "k \<notin> fst ` set (attrs r)"
  shows "map_of (json_data ts_key df ctx r) k =
           (if k = ''exc'' \<and> exc_info r \<noteq> None then map_option PStr (exc_info r)
            else Some (safe_json_value v))"
proof -
  from assms(2) have "k \<notin> fst ` set (json_base ts_key df r)"
    unfolding keys_json_base by simp
  then have "map_of (json_base ts_key df r) k = None"
    by (simp add: map_of_eq_None_iff)
  with assms(1) have "map_of (json_ctx_loop ctx (json_base ts_key df r)) k = Some (safe_json_value v)"
    by (simp add: map_of_json_ctx_loop)
  with json_record_loop_notin [OF assms(3), of "json_ctx_loop ctx (json_base ts_key df r)"]
  show ?thesis
    by (auto simp: json_data_def Let_def json_record_loop_record_dict update_conv'
        split: option.splits)
qed

lemma map_of_json_data_record:
  assumes "distinct (map fst (attrs r))" and "map_of (attrs r) k = Some v"
    and "k \<notin> set standard_logrecord_keys" and "k \<noteq> ''message''"
  shows "map_of (json_data ts_key df ctx r) k =
           (if k = ''exc'' \<and> exc_info r \<noteq> None then map_option PStr (exc_info r)
            else Some (safe_json_value v))"
  using json_record_loop_in [OF assms(3,4,1,2), of "json_ctx_loop ctx (json_base ts_key df r)"]
  by (auto simp: json_data_def Let_def json_record_loop_record_dict update_conv'
      split: option.splits)

text \<open>
  C6. \<open>_safe_json_value\<close> returns a value that \<open>json.dumps\<close> accepts unchanged; a value
  that \<open>json.dumps\<close> rejects is replaced by its \<open>str\<close>, and by the string
  \<open><not serializable>\<close> when \<open>str\<close> raises too. This converted value is what the
  formatter's object holds: for an ambient key that is neither a base key nor an extra key
  of the record, and for an extra key of the record (the traceback entry \<open>exc\<close> of a
  record with exception information apart). Every value of the object is accepted by
  \<open>json.dumps\<close>; the line that \<open>JsonFormatter.format\<close> returns is \<open>json.dumps\<close> of this
  object, for every record and every ambient context; and a handler with the JSON
  formatter never reports an error when it emits.
\<close>

theorem safe_json_value_fallback:
  "(dumps_value obj = Inr s \<longrightarrow> safe_json_value obj = obj) \<and>
   (dumps_value obj = Inl e \<and> py_str obj = Inr s \<longrightarrow> safe_json_value obj = PStr s) \<and>
   (dumps_value obj = Inl e \<and> py_str obj = Inl e' \<longrightarrow>
      safe_json_value obj = PStr ''<not serializable>'') \<and>
   (map_of ctx k = Some obj \<and>
      k \<notin> {ts_key, ''level'', ''logger'', ''message'', ''module'', ''func'', ''line''} \<and>
      k \<notin> fst ` set (attrs r) \<and> \<not> (k = ''exc'' \<and> exc_info r \<noteq> None) \<longrightarrow>
      map_of (json_data ts_key df ctx r) k = Some (safe_json_value obj)) \<and>
   (distinct (map fst (attrs r)) \<and> map_of (attrs r) k = Some obj \<and>
      k \<notin> set standard_logrecord_keys \<and> k \<noteq> ''message'' \<and>
      \<not> (k = ''exc'' \<and> exc_info r \<noteq> None) \<longrightarrow>
      map_of (json_data ts_key df ctx r) k = Some (safe_json_value obj)) \<and>
   (\<forall>v \<in> snd ` set (json_data ts_key df ctx r). \<exists>t. dumps_value v = Inr t) \<and>
   (\<exists>line. JsonFormatter_format ts_key df ctx r = (Inr line, r) \<and>
            dumps_dict (json_data ts_key df ctx r) = Inr line) \<and>
   stderr (snd (StreamHandler_emit \<lparr>sink = snk, hlevel = lv, formatter = JsonFormatter ts_key df\<rparr>
                  fv r out)) = stderr out"
proof -
  have branches: "(dumps_value obj = Inr s \<longrightarrow> safe_json_value obj = obj) \<and>
   (dumps_value obj = Inl e \<and> py_str obj = Inr s \<longrightarrow> safe_json_value obj = PStr s) \<and>
   (dumps_value obj = Inl e \<and> py_str obj = Inl e' \<longrightarrow>
      safe_json_value obj = PStr ''<not serializable>'')"
    by (auto simp: safe_json_value_def)
  have amb: "map_of ctx k = Some obj \<and>
      k \<notin> {ts_key, ''level'', ''logger'', ''message'', ''module'', ''func'', ''line''} \<and>
      k \<notin> fst ` set (attrs r) \<and> \<not> (k = ''exc'' \<and> exc_info r \<noteq> None) \<longrightarrow>
      map_of (json_data ts_key df ctx r) k = Some (safe_json_value obj)"
    using map_of_json_data_context [of ctx k obj ts_key r df] by auto
  have ext: "distinct (map fst (attrs r)) \<and> map_of (attrs r) k = Some obj \<and>
      k \<notin> set standard_logrecord_keys \<and> k \<noteq> ''message'' \<and>
      \<not> (k = ''exc'' \<and> exc_info r \<noteq> None) \<longrightarrow>
      map_of (json_data ts_key df ctx r) k = Some (safe_json_value obj)"
    using map_of_json_data_record [of r k obj ts_key df ctx] by auto
  have enc: "\<forall>v \<in> snd ` set (json_data ts_key df ctx r). \<exists>t. dumps_value v = Inr t"
    using encodable_json_data [of ts_key df ctx r] by (simp add: encodable_def)
  from JsonFormatter_format_total [of ts_key df "get_context fv" r]
  have err: "stderr (snd (StreamHandler_emit
                \<lparr>sink = snk, hlevel = lv, formatter = JsonFormatter ts_key df\<rparr> fv r out)) = stderr out"
    by (cases snk) (auto simp: StreamHandler_emit_def write_sink_def)
  from JsonFormatter_format_total [of ts_key df ctx r]
  have line: "\<exists>line. JsonFormatter_format ts_key df ctx r = (Inr line, r) \<and>
            dumps_dict (json_data ts_key df ctx r) = Inr line"
    by (auto simp: JsonFormatter_format_def)
  from branches amb ext enc line err show ?thesis by blast
qed

theorem safe_json_value_fallback_witness:
  "dumps_value (PObj None) = Inl TypeError \<and> py_str (PObj None) = Inl StrError \<and>
   safe_json_value (PObj None) = PStr ''<not serializable>'' \<and>
   dumps_value (PObj (Some ''<Request>'')) = Inl TypeError \<and>
   py_str (PObj (Some ''<Request>'')) = Inr ''<Request>'' \<and>
   safe_json_value (PObj (Some ''<Request>'')) = PStr ''<Request>'' \<and>
   dumps_value (PInt 7) = Inr ''7'' \<and> safe_json_value (PInt 7) = PInt 7 \<and>
   map_of (json_data ''ts'' digits [(''req'', PObj (Some ''<Request>''))]
             (sample_record [(''obj'', PObj None)])) ''req'' = Some (PStr ''<Request>'') \<and>
   map_of (json_data ''ts'' digits [(''req'', PObj (Some ''<Request>''))]
             (sample_record [(''obj'', PObj None)])) ''obj'' = Some (PStr ''<not serializable>'')"
proof -
  let ?ctx = "[(''req'', PObj (Some ''<Request>''))]"
  let ?r = "sample_record [(''obj'', PObj None)]"
  have d: "dumps_value (PObj None) = Inl TypeError" "py_str (PObj None) = Inl StrError"
    "dumps_value (PObj (Some ''<Request>'')) = Inl TypeError"
    "py_str (PObj (Some ''<Request>'')) = Inr ''<Request>''"
    "dumps_value (PInt 7) = Inr ''7''"
    by (simp_all add: str_int_def digits.simps [of 7] digit_char_def)
  have a: "map_of ?ctx ''req'' = Some (PObj (Some ''<Request>''))"
    "''req'' \<notin> {''ts'', ''level'', ''logger'', ''message'', ''module'', ''func'', ''line''}"
    "''req'' \<notin> fst ` set (attrs ?r)" "\<not> (''req'' = ''exc'' \<and> exc_info ?r \<noteq> None)"
    by (simp_all add: sample_record_def)
  have x: "distinct (map fst (attrs ?r))" "map_of (attrs ?r) ''obj'' = Some (PObj None)"
    "''obj'' \<notin> set standard_logrecord_keys" "''obj'' \<noteq> ''message''"
    "\<not> (''obj'' = ''exc'' \<and> exc_info ?r \<noteq> None)"
    by (simp_all add: sample_record_def std_defs)
  note t1 = safe_json_value_fallback [of "PObj None" "[]" TypeError StrError ?ctx "''obj''" "''ts''"
      ?r digits]
  note t2 = safe_json_value_fallback [of "PObj (Some ''<Request>'')" "''<Request>''" TypeError
      StrError ?ctx "''req''" "''ts''" ?r digits]
  note t3 = safe_json_value_fallback [of "PInt 7" "''7''"]
  from t1 d have s1: "safe_json_value (PObj None) = PStr ''<not serializable>''" by blast
  from t2 d have s2: "safe_json_value (PObj (Some ''<Request>'')) = PStr ''<Request>''" by blast
  from t3 d have s3: "safe_json_value (PInt 7) = PInt 7" by blast
  from t2 a s2 have j1: "map_of (json_data ''ts'' digits ?ctx ?r) ''req'' = Some (PStr ''<Request>'')"
    by metis
  from t1 x s1 have j2: "map_of (json_data ''ts'' digits ?ctx ?r) ''obj''
      = Some (PStr ''<not serializable>'')"
    by metis
  from d s1 s2 s3 j1 j2 show ?thesis by blast
qed


section \<open>Extra keys that are output keys of the JSON formatter\<close>

lemma makeRecord_extra_ok:
  assumes "distinct (map fst items)"
    and "\<forall>k \<in> fst ` set items. k \<notin> set STANDARD_KEYS"
    and "fst ` set items \<inter> fst ` set (attrs r) = {}"
  shows "makeRecord_extra items r = Inr (r\<lparr>attrs := attrs r @ items\<rparr>)"
  using assms
proof (induction items arbitrary: r)
  case Nil
  then show ?case by simp
next
  case (Cons p items)
  obtain k v where p: "p = (k, v)" by (cases p)
  from Cons.prems p have k: "k \<notin> set STANDARD_KEYS" "k \<notin> fst ` set (attrs r)"
    "k \<notin> fst ` set items" by auto
  let ?r = "r\<lparr>attrs := AList.update k v (attrs r)\<rparr>"
  have a: "attrs ?r = attrs r @ [(k, v)]"
    using k(2) by (simp add: update_fresh)
  have "makeRecord_extra items ?r = Inr (?r\<lparr>attrs := attrs ?r @ items\<rparr>)"
  proof (rule Cons.IH)
    show "distinct (map fst items)" using Cons.prems p by simp
    show "\<forall>k \<in> fst ` set items. k \<notin> set STANDARD_KEYS" using Cons.prems by simp
    show "fst ` set items \<inter> fst ` set (attrs ?r) = {}"
      using Cons.prems p k(3) by (auto simp: a)
  qed
  with k not_standard [OF k(1)] p show ?case
    by (simp add: a)
qed

lemma makeRecord_sanitized:
  "\<exists>r. makeRecord n lvl md fn lno m exc now (Some (sanitize_loop e [])) = Inr r \<and>
       attrs r = sanitize_loop e [] \<and> exc_info r = exc"
proof -
  have "distinct (map fst (sanitize_loop e []))"
    by (simp add: distinct_sanitize_loop)
  moreover have "\<forall>k \<in> fst ` set (sanitize_loop e []). k \<notin> set STANDARD_KEYS"
    by (rule sanitize_loop_keys) simp
  ultimately show ?thesis
    by (simp add: makeRecord_def makeRecord_extra_ok)
qed

text \<open>With sanitization enabled no logging call raises the \<open>KeyError\<close> of \<open>makeRecord\<close>.\<close>

lemma sanitized_call_no_KeyError:
  "SafeLogger_log lvl fn lno exc \<lparr>logger = n, sanitize_extra_enabled = True\<rparr> reg m extra now fv out
     \<noteq> Inl e"
proof (cases "sanitize_extra True extra")
  case None
  then show ?thesis
    by (simp add: SafeLogger_log_def Logger_log_def makeRecord_def)
next
  case (Some e')
  then obtain e0 where "e' = sanitize_loop e0 []"
    by (auto simp: sanitize_extra_def split: option.splits if_splits)
  with Some makeRecord_sanitized [of n lvl "''logger''" fn lno m exc now e0] show ?thesis
    by (auto simp: SafeLogger_log_def Logger_log_def)
qed

lemma output_keys_not_reserved:
  "k \<in> {''level'', ''logger'', ''func'', ''line''} \<Longrightarrow>
   k \<notin> set STANDARD_KEYS \<and> k \<notin> (\<lambda>k0. k0 @ ''_extra'') ` set STANDARD_KEYS"
  by (auto simp: std_defs)

text \<open>
  C9 (as the code has it). Let an extra key be \<open>level\<close>, \<open>logger\<close>, \<open>func\<close> or \<open>line\<close>,
  or the configured timestamp key when that key is neither a reserved name nor a reserved
  name followed by \<open>_extra\<close>. Sanitization keeps the key with its value, \<open>makeRecord\<close>
  accepts the sanitized mapping, and the JSON formatter's object binds the key to the
  caller's value in its \<open>_safe_json_value\<close> form, in place of the record's own value
  (the traceback entry \<open>exc\<close> of a record with exception information is written last).
  Sanitizing an absent or an empty mapping gives \<open>None\<close>, with the toggle on or off.
\<close>

theorem output_key_extra_overrides:
  assumes "distinct (map fst e)" and "(k, v) \<in> set e"
    and "k \<in> {''level'', ''logger'', ''func'', ''line''} \<or>
         k = ts_key \<and> ts_key \<notin> set STANDARD_KEYS \<and>
           ts_key \<notin> (\<lambda>k0. k0 @ ''_extra'') ` set STANDARD_KEYS"
  shows "(\<exists>e' r. sanitize_extra True (Some e) = Some e' \<and> map_of e' k = Some v \<and>
            makeRecord n lvl md fn lno m exc now (Some e') = Inr r \<and>
            map_of (json_data ts_key df ctx r) k =
              (if k = ''exc'' \<and> exc \<noteq> None then map_option PStr exc
               else Some (safe_json_value v))) \<and>
         sanitize_extra b None = None \<and> sanitize_extra b (Some []) = None"
proof -
  from assms(3) output_keys_not_reserved [of k]
  have k: "k \<notin> set STANDARD_KEYS" "k \<notin> (\<lambda>k0. k0 @ ''_extra'') ` set STANDARD_KEYS"
    by auto
  from assms(2) have ne: "e \<noteq> []" by auto
  from assms(1,2) have kv: "map_of e k = Some v" by simp
  let ?e' = "sanitize_loop e []"
  have s: "sanitize_extra True (Some e) = Some ?e'"
    using ne by (simp add: sanitize_extra_def)
  have "\<forall>k0 \<in> fst ` set e. k0 \<in> set STANDARD_KEYS \<longrightarrow> k0 @ ''_extra'' \<noteq> k"
    using k(2) by auto
  from map_of_sanitize_loop_keep [OF k(1) this assms(1), of "[]"] kv
  have kv': "map_of ?e' k = Some v" by simp
  from makeRecord_sanitized [of n lvl md fn lno m exc now e]
  obtain r where r: "makeRecord n lvl md fn lno m exc now (Some ?e') = Inr r"
    "attrs r = ?e'" "exc_info r = exc" by blast
  have d: "distinct (map fst (attrs r))"
    by (simp add: r(2) distinct_sanitize_loop)
  from kv' r(2) have "map_of (attrs r) k = Some v" by simp
  from map_of_json_data_extra [OF d k(1) this, of ts_key df ctx] r(3)
  have j: "map_of (json_data ts_key df ctx r) k =
              (if k = ''exc'' \<and> exc \<noteq> None then map_option PStr exc
               else Some (safe_json_value v))"
    by simp
  have "sanitize_extra b None = None" "sanitize_extra b (Some []) = None"
    by (simp_all add: sanitize_extra_def)
  with s kv' r(1) j show ?thesis by blast
qed

theorem output_key_extra_overrides_witness:
  "distinct (map fst [(''level'', PStr ''x'')]) \<and>
   (''level'', PStr ''x'') \<in> set [(''level'', PStr ''x'')] \<and>
   sanitize_extra True (Some [(''level'', PStr ''x'')]) = Some [(''level'', PStr ''x'')] \<and>
   makeRecord ''app'' INFO ''logger'' ''info'' 41 ''hello'' None 0 (Some [(''level'', PStr ''x'')])
     = Inr (sample_record [(''level'', PStr ''x'')]) \<and>
   map_of (json_data ''ts'' digits [] (sample_record [(''level'', PStr ''x'')])) ''level''
     = Some (PStr ''x'')"
proof -
  have h1: "distinct (map fst [(''level'', PStr ''x'')])" by simp
  have h2: "(''level'', PStr ''x'') \<in> set [(''level'', PStr ''x'')]" by simp
  have h3: "''level'' \<in> {''level'', ''logger'', ''func'', ''line''} \<or>
         ''level'' = ''ts'' \<and> ''ts'' \<notin> set STANDARD_KEYS \<and>
           ''ts'' \<notin> (\<lambda>k0. k0 @ ''_extra'') ` set STANDARD_KEYS" by simp
  have s: "sanitize_extra True (Some [(''level'', PStr ''x'')]) = Some [(''level'', PStr ''x'')]"
    by (simp add: sanitize_extra_def std_defs)
  have m: "makeRecord ''app'' INFO ''logger'' ''info'' 41 ''hello'' None 0 (Some [(''level'', PStr ''x'')])
     = Inr (sample_record [(''level'', PStr ''x'')])"
    by (simp add: makeRecord_def sample_record_def std_defs)
  from output_key_extra_overrides [OF h1 h2 h3, of "''app''" INFO "''logger''" "''info''" 41
      "''hello''" None 0 digits "[]" True]
  have "map_of (json_data ''ts'' digits [] (sample_record [(''level'', PStr ''x'')])) ''level''
     = Some (PStr ''x'')"
    by (simp add: s m safe_json_value_def)
  with h1 h2 s m show ?thesis by blast
qed

text \<open>
  C9 (as stated). With \<open>created\<close> configured as the timestamp key, the extra key
  \<open>created\<close> is renamed to \<open>created_extra\<close>, and the JSON object binds \<open>created\<close> to the
  timestamp, not to the caller's 5.
\<close>

theorem reserved_timestamp_key_renamed:
  "sanitize_extra True (Some [(''created'', PInt 5)]) = Some [(''created_extra'', PInt 5)] \<and>
   makeRecord ''app'' INFO ''logger'' ''info'' 41 ''hello'' None 0 (Some [(''created_extra'', PInt 5)])
     = Inr (sample_record [(''created_extra'', PInt 5)]) \<and>
   map_of (json_data ''created'' digits [] (sample_record [(''created_extra'', PInt 5)])) ''created''
     = Some (PStr ''0'')"
  by (simp add: sanitize_extra_def std_defs makeRecord_def sample_record_def json_data_def
      json_base_def record_dict_def Let_def digits_0 getMessage_def safe_json_value_def)


section \<open>The console line of a call\<close>

text \<open>
  C3 (as the code has it). With the default configuration (level \<open>INFO\<close>, text console,
  stream-safe) on a fresh process, \<open>info("hello", extra={"level": "x"})\<close> in a flow that
  is not streaming and has an empty context writes the console line
  \<open>[<ts>] [INFO] hello | level=x\<close>: \<open>level\<close> is not an attribute name of the log record,
  so the key is kept.
\<close>

theorem info_level_extra_line:
  "map_sum id stdout
     (info (fst (configure_logging (default_config df) no_loggers))
           (snd (configure_logging (default_config df) no_loggers))
           ''hello'' (Some [(''level'', PStr ''x'')]) now
           (set_streaming False (clear_context fv)) out)
   = Inr (stdout out @ [''['' @ df now @ ''] [INFO] hello | level=x'' @ [CHR 0x0A]])"
  by (simp add: pipeline_defs split: prod.splits sum.splits)

text \<open>
  C3 (as stated). With the time rendered as seconds and the call made at time 0, the
  console does not receive the line \<open>[0] [INFO] hello | level_extra=x\<close>.
\<close>

theorem info_level_extra_not_renamed:
  "map_sum id stdout
     (info (fst (configure_logging (default_config digits) no_loggers))
           (snd (configure_logging (default_config digits) no_loggers))
           ''hello'' (Some [(''level'', PStr ''x'')]) 0 flow_default nothing_written)
   \<noteq> Inr [''[0] [INFO] hello | level_extra=x'' @ [CHR 0x0A]]"
  by (simp add: pipeline_defs digits_0 split: prod.splits sum.splits)


section \<open>Console suppression while streaming\<close>

lemma stdout_StreamHandler_emit_file:
  "sink h = TimedRotatingFileHandler fn w i b u \<Longrightarrow>
   stdout (snd (StreamHandler_emit h fv r out)) = stdout out"
  by (simp add: StreamHandler_emit_def write_sink_def split: prod.splits sum.splits)

lemma stdout_callHandlers_streaming:
  assumes "is_streaming fv"
    and "\<forall>h \<in> set hs. sink h \<noteq> StreamSafeConsoleHandler False"
  shows "stdout (snd (callHandlers hs fv r out)) = stdout out"
  using assms(2)
proof (induction hs arbitrary: r out)
  case Nil
  then show ?case by simp
next
  case (Cons h hs)
  have e: "stdout (snd (emit h fv r out)) = stdout out"
  proof (cases "sink h")
    case (StreamSafeConsoleHandler safe)
    with Cons.prems have "safe" by (cases safe) auto
    with StreamSafeConsoleHandler assms(1) show ?thesis by (simp add: emit_def)
  next
    case (TimedRotatingFileHandler fn w i b u)
    then show ?thesis
      by (simp add: emit_def stdout_StreamHandler_emit_file)
  qed
  from Cons.prems have hs: "\<forall>h \<in> set hs. sink h \<noteq> StreamSafeConsoleHandler False" by simp
  show ?case
    using Cons.IH [OF hs] e
    by (cases "emit h fv r out") simp
qed

lemma info_streaming_console_silent:
  assumes "stream_safe cfg" and "is_streaming fv"
    and "info (fst (configure_logging cfg no_loggers)) (snd (configure_logging cfg no_loggers))
           m extra now fv out = Inr out'"
  shows "stdout out' = stdout out"
proof -
  have "\<forall>h \<in> set (build_handlers cfg). sink h \<noteq> StreamSafeConsoleHandler False"
    using assms(1) by (auto simp: build_handlers_def Let_def)
  from stdout_callHandlers_streaming [OF assms(2) this] assms(3) show ?thesis
    by (auto simp: info_def SafeLogger_log_def Logger_log_def configure_logging_def Let_def
        getLogger_def new_Logger_def no_loggers_def split: if_splits sum.splits)
qed

text \<open>
  C4. A console handler with the stream-safe flag, in a flow that is streaming, leaves the
  record and everything written untouched. A file handler emits as \<open>StreamHandler.emit\<close>
  does whatever the streaming flag says, and appends the formatted line to its file. A
  console handler without the flag, or in a flow that is not streaming, emits as
  \<open>StreamHandler.emit\<close> does and appends the formatted line to the console. For a whole
  call: with a stream-safe configuration an \<open>info\<close> call in a streaming flow leaves the
  console as it was; and under the default configuration \<open>info(m)\<close> returns, writes the
  console line exactly when the flow is not streaming, and in both cases appends the text
  line to the text file and the JSON line to the JSON file.
\<close>

theorem emit_stream_safe:
  "(sink h = StreamSafeConsoleHandler True \<and> is_streaming fv \<longrightarrow> emit h fv r out = (r, out)) \<and>
   (\<forall>fn w i b u. sink h = TimedRotatingFileHandler fn w i b u \<longrightarrow>
      emit h fv r out = StreamHandler_emit h fv r out \<and>
      (\<forall>line r'. format (formatter h) (get_context fv) r = (Inr line, r') \<longrightarrow>
         emit h fv r out = (r', out\<lparr>files := (files out)(fn := files out fn @ [line @ [CHR 0x0A]])\<rparr>))) \<and>
   (\<forall>safe. sink h = StreamSafeConsoleHandler safe \<and> (\<not> safe \<or> \<not> is_streaming fv) \<longrightarrow>
      emit h fv r out = StreamHandler_emit h fv r out \<and>
      (\<forall>line r'. format (formatter h) (get_context fv) r = (Inr line, r') \<longrightarrow>
         emit h fv r out = (r', out\<lparr>stdout := stdout out @ [line @ [CHR 0x0A]]\<rparr>))) \<and>
   (\<forall>out'. stream_safe cfg \<and> is_streaming fv \<and>
      info (fst (configure_logging cfg no_loggers)) (snd (configure_logging cfg no_loggers))
        m extra now fv out = Inr out' \<longrightarrow> stdout out' = stdout out) \<and>
   (\<exists>out' line.
      info (fst (configure_logging (default_config df) no_loggers))
           (snd (configure_logging (default_config df) no_loggers))
           m None now (set_streaming streaming_now (clear_context fv)) out = Inr out' \<and>
      stdout out' = (if streaming_now then stdout out
                     else stdout out @ [''['' @ df now @ ''] [INFO] '' @ m @ [CHR 0x0A]]) \<and>
      files out' ''logs/app.log''
        = files out ''logs/app.log'' @ [''['' @ df now @ ''] [INFO] '' @ m @ [CHR 0x0A]] \<and>
      dumps_dict [(''ts'', PStr (df now)), (''level'', PStr ''INFO''), (''logger'', PStr ''app''),
                  (''message'', PStr m), (''module'', PStr ''logger''), (''func'', PStr ''info''),
                  (''line'', PInt 41), (''asctime'', PStr (df now))] = Inr line \<and>
      files out' ''logs/app.json.log'' = files out ''logs/app.json.log'' @ [line @ [CHR 0x0A]])"
proof -
  have one: "(sink h = StreamSafeConsoleHandler True \<and> is_streaming fv \<longrightarrow> emit h fv r out = (r, out)) \<and>
   (\<forall>fn w i b u. sink h = TimedRotatingFileHandler fn w i b u \<longrightarrow>
      emit h fv r out = StreamHandler_emit h fv r out \<and>
      (\<forall>line r'. format (formatter h) (get_context fv) r = (Inr line, r') \<longrightarrow>
         emit h fv r out = (r', out\<lparr>files := (files out)(fn := files out fn @ [line @ [CHR 0x0A]])\<rparr>))) \<and>
   (\<forall>safe. sink h = StreamSafeConsoleHandler safe \<and> (\<not> safe \<or> \<not> is_streaming fv) \<longrightarrow>
      emit h fv r out = StreamHandler_emit h fv r out \<and>
      (\<forall>line r'. format (formatter h) (get_context fv) r = (Inr line, r') \<longrightarrow>
         emit h fv r out = (r', out\<lparr>stdout := stdout out @ [line @ [CHR 0x0A]]\<rparr>)))"
    by (auto simp: emit_def StreamHandler_emit_def write_sink_def)
  have silent: "\<forall>out'. stream_safe cfg \<and> is_streaming fv \<and>
      info (fst (configure_logging cfg no_loggers)) (snd (configure_logging cfg no_loggers))
        m extra now fv out = Inr out' \<longrightarrow> stdout out' = stdout out"
    using info_streaming_console_silent [of cfg fv m extra now out] by blast
  have call: "\<exists>out' line.
      info (fst (configure_logging (default_config df) no_loggers))
           (snd (configure_logging (default_config df) no_loggers))
           m None now (set_streaming streaming_now (clear_context fv)) out = Inr out' \<and>
      stdout out' = (if streaming_now then stdout out
                     else stdout out @ [''['' @ df now @ ''] [INFO] '' @ m @ [CHR 0x0A]]) \<and>
      files out' ''logs/app.log''
        = files out ''logs/app.log'' @ [''['' @ df now @ ''] [INFO] '' @ m @ [CHR 0x0A]] \<and>
      dumps_dict [(''ts'', PStr (df now)), (''level'', PStr ''INFO''), (''logger'', PStr ''app''),
                  (''message'', PStr m), (''module'', PStr ''logger''), (''func'', PStr ''info''),
                  (''line'', PInt 41), (''asctime'', PStr (df now))] = Inr line \<and>
      files out' ''logs/app.json.log'' = files out ''logs/app.json.log'' @ [line @ [CHR 0x0A]]"
    by (cases streaming_now)
      (simp_all add: pipeline_defs json_data_def json_base_def safe_json_value_def dumps_dict_def)
  from one silent call show ?thesis by blast
qed

theorem emit_stream_safe_witness:
  "emit \<lparr>sink = StreamSafeConsoleHandler True, hlevel = 20,
          formatter = TextFormatter default_text_fmt digits\<rparr>
        (set_streaming True flow_default) (sample_record []) nothing_written
     = (sample_record [], nothing_written) \<and>
   files (snd (emit \<lparr>sink = TimedRotatingFileHandler ''logs/app.log'' ''midnight'' 1 7 False,
                      hlevel = 20, formatter = TextFormatter default_text_fmt digits\<rparr>
                 (set_streaming True flow_default) (sample_record []) nothing_written))
         ''logs/app.log''
     = [''[0] [INFO] hello'' @ [CHR 0x0A]] \<and>
   stdout (snd (emit \<lparr>sink = StreamSafeConsoleHandler True, hlevel = 20,
                       formatter = TextFormatter default_text_fmt digits\<rparr>
                 (set_streaming False flow_default) (sample_record []) nothing_written))
     = [''[0] [INFO] hello'' @ [CHR 0x0A]] \<and>
   (\<exists>out'.
      info (fst (configure_logging (default_config digits) no_loggers))
           (snd (configure_logging (default_config digits) no_loggers))
           ''hello'' None 0 (set_streaming True (clear_context flow_default)) nothing_written
        = Inr out' \<and>
      stdout out' = [] \<and>
      files out' ''logs/app.log'' = [''[0] [INFO] hello'' @ [CHR 0x0A]] \<and>
      length (files out' ''logs/app.json.log'') = 1)"
proof -
  let ?console = "\<lparr>sink = StreamSafeConsoleHandler True, hlevel = 20,
          formatter = TextFormatter default_text_fmt digits\<rparr>"
  let ?file = "\<lparr>sink = TimedRotatingFileHandler ''logs/app.log'' ''midnight'' 1 7 False,
                      hlevel = 20, formatter = TextFormatter default_text_fmt digits\<rparr>"
  let ?on = "set_streaming True flow_default"
  let ?off = "set_streaming False flow_default"
  let ?r = "sample_record []"
  let ?r' = "(sample_record [])\<lparr>attrs := [(''message'', PStr ''hello''), (''asctime'', PStr ''0'')]\<rparr>"
  have f: "format (TextFormatter default_text_fmt digits) (get_context ?on) ?r
             = (Inr ''[0] [INFO] hello'', ?r')"
    "format (TextFormatter default_text_fmt digits) (get_context ?off) ?r
             = (Inr ''[0] [INFO] hello'', ?r')"
    by (simp_all add: sample_record_def std_defs TextFormatter_format_def Formatter_format_def
        usesTime_def default_text_fmt_def record_dict_def getMessage_def text_extras_def
        digits_0 Let_def set_streaming_def flow_default_def get_context_def)
  have s: "is_streaming ?on" "\<not> is_streaming ?off"
    by (simp_all add: is_streaming_def set_streaming_def flow_default_def)
  have k: "sink ?console = StreamSafeConsoleHandler True"
    "sink ?file = TimedRotatingFileHandler ''logs/app.log'' ''midnight'' 1 7 False"
    "formatter ?console = TextFormatter default_text_fmt digits"
    "formatter ?file = TextFormatter default_text_fmt digits"
    by simp_all
  note t_on = emit_stream_safe [of ?console ?on ?r nothing_written, THEN conjunct1]
  note t_file = emit_stream_safe [of ?file ?on ?r nothing_written, THEN conjunct2, THEN conjunct1]
  note t_off = emit_stream_safe [of ?console ?off ?r nothing_written,
      THEN conjunct2, THEN conjunct2, THEN conjunct1]
  note t_call = emit_stream_safe [where fv = flow_default and out = nothing_written
      and df = digits and m = "''hello''" and now = 0 and streaming_now = True,
      THEN conjunct2, THEN conjunct2, THEN conjunct2, THEN conjunct2]
  from t_on s(1) k(1) have a: "emit ?console ?on ?r nothing_written = (?r, nothing_written)"
    by blast
  from t_file f(1) k(2,4)
  have "emit ?file ?on ?r nothing_written
          = (?r', nothing_written\<lparr>files := (files nothing_written)
               (''logs/app.log'' := files nothing_written ''logs/app.log'' @ [''[0] [INFO] hello'' @ [CHR 0x0A]])\<rparr>)"
    by metis
  then have b: "files (snd (emit ?file ?on ?r nothing_written)) ''logs/app.log''
          = [''[0] [INFO] hello'' @ [CHR 0x0A]]"
    by (simp add: nothing_written_def)
  from t_off s(2) f(2) k(1,3)
  have "emit ?console ?off ?r nothing_written
          = (?r', nothing_written\<lparr>stdout := stdout nothing_written @ [''[0] [INFO] hello'' @ [CHR 0x0A]]\<rparr>)"
    by metis
  then have c: "stdout (snd (emit ?console ?off ?r nothing_written)) = [''[0] [INFO] hello'' @ [CHR 0x0A]]"
    by (simp add: nothing_written_def)
  from t_call obtain out' line where
    "info (fst (configure_logging (default_config digits) no_loggers))
           (snd (configure_logging (default_config digits) no_loggers))
           ''hello'' None 0 (set_streaming True (clear_context flow_default)) nothing_written
        = Inr out'"
    "stdout out' = (if True then stdout nothing_written
                    else stdout nothing_written @ [''['' @ digits 0 @ ''] [INFO] '' @ ''hello'' @ [CHR 0x0A]])"
    "files out' ''logs/app.log''
        = files nothing_written ''logs/app.log'' @ [''['' @ digits 0 @ ''] [INFO] '' @ ''hello'' @ [CHR 0x0A]]"
    "files out' ''logs/app.json.log'' = files nothing_written ''logs/app.json.log'' @ [line @ [CHR 0x0A]]"
    by blast
  then have d: "\<exists>out'.
      info (fst (configure_logging (default_config digits) no_loggers))
           (snd (configure_logging (default_config digits) no_loggers))
           ''hello'' None 0 (set_streaming True (clear_context flow_default)) nothing_written
        = Inr out' \<and>
      stdout out' = [] \<and>
      files out' ''logs/app.log'' = [''[0] [INFO] hello'' @ [CHR 0x0A]] \<and>
      length (files out' ''logs/app.json.log'') = 1"
    by (auto simp: nothing_written_def digits_0)
  from a b c d show ?thesis by blast
qed


section \<open>Configuration\<close>



section \<open>The JSON line\<close>

lemma hexval_digit_char: "d < 16 \<Longrightarrow> hexval (digit_char d) = Some d"
proof -
  assume "d < 16"
  then consider "d = 0" | "d = 1" | "d = 2" | "d = 3" | "d = 4" | "d = 5" | "d = 6" | "d = 7"
    | "d = 8" | "d = 9" | "d = 10" | "d = 11" | "d = 12" | "d = 13" | "d = 14" | "d = 15"
    by atomize_elim presburger
  then show ?thesis
    by cases (simp_all add: digit_char_def hexval_def)
qed

lemma parse_chars_escape_char:
  "parse_chars (escape_char c @ rest) = push c (parse_chars rest)"
proof -
  consider "c = CHR 0x5C" | "c = CHR 0x22" | "c = CHR 0x08" | "c = CHR 0x0C" | "c = CHR 0x0A"
    | "c = CHR 0x0D" | "c = CHR 0x09"
    | "c \<notin> {CHR 0x5C, CHR 0x22, CHR 0x08, CHR 0x0C, CHR 0x0A, CHR 0x0D, CHR 0x09}" "(of_char c :: nat) < 32"
    | "c \<notin> {CHR 0x5C, CHR 0x22, CHR 0x08, CHR 0x0C, CHR 0x0A, CHR 0x0D, CHR 0x09}" "\<not> (of_char c :: nat) < 32"
    by blast
  then show ?thesis
  proof cases
    case 8
    let ?n = "of_char c :: nat"
    from 8(2) have hi: "?n div 16 < 16" and lo: "?n mod 16 < 16" by auto
    have n: "16 * (?n div 16) + ?n mod 16 = ?n" by simp
    have z: "hexval (CHR ''0'') = Some 0" by (simp add: hexval_def)
    show ?thesis
      using 8 hexval_digit_char [OF hi] hexval_digit_char [OF lo] z
      by (simp add: escape_char_def n)
  qed (simp_all add: escape_char_def unescape_def)
qed

lemma parse_chars_body:
  "parse_chars (concat (map escape_char s) @ CHR 0x22 # rest) = Some (s, rest)"
  by (induction s) (simp_all add: parse_chars_escape_char push_def)

lemma digit_char_decimal:
  assumes "d < 10"
  shows "is_digit (digit_char d)" and "digit_char d = CHR ''0'' \<longleftrightarrow> d = 0"
proof -
  from assms consider "d = 0" | "d = 1" | "d = 2" | "d = 3" | "d = 4" | "d = 5" | "d = 6"
    | "d = 7" | "d = 8" | "d = 9"
    by atomize_elim presburger
  then have "is_digit (digit_char d) \<and> (digit_char d = CHR ''0'' \<longleftrightarrow> d = 0)"
    by cases (simp_all add: digit_char_def is_digit_def)
  then show "is_digit (digit_char d)" and "digit_char d = CHR ''0'' \<longleftrightarrow> d = 0" by auto
qed

lemma digits_all_digits: "\<forall>c \<in> set (digits n). is_digit c"
proof (induction n rule: digits.induct)
  case (1 n)
  show ?case
  proof (cases "n < 10")
    case True
    then show ?thesis by (simp add: digits.simps [of n] digit_char_decimal)
  next
    case False
    have "n mod 10 < 10" by simp
    with False 1 show ?thesis
      by (simp add: digits.simps [of n] digit_char_decimal)
  qed
qed

lemma digits_not_Nil: "digits n \<noteq> []"
  by (subst digits.simps) simp

lemma hd_digits: "is_digit (hd (digits n))"
  using digits_all_digits [of n] digits_not_Nil [of n] by (cases "digits n") auto

lemma hd_digits_nonzero: "0 < n \<Longrightarrow> hd (digits n) \<noteq> CHR ''0''"
proof (induction n rule: digits.induct)
  case (1 n)
  show ?case
  proof (cases "n < 10")
    case True
    with 1(2) show ?thesis by (simp add: digits.simps [of n] digit_char_decimal)
  next
    case False
    then have "0 < n div 10" by simp
    from 1(1) [OF False this] False show ?thesis
      by (simp add: digits.simps [of n] digits_not_Nil)
  qed
qed

lemma digits_no_leading_zero: "\<not> (hd (digits n) = CHR ''0'' \<and> length (digits n) > 1)"
proof (cases "n = 0")
  case True
  then show ?thesis by (simp add: digits_0)
next
  case False
  then show ?thesis using hd_digits_nonzero [of n] by simp
qed

lemma is_digit_literals:
  "is_digit (CHR ''0'')" "\<not> is_digit (CHR ''.'')" "\<not> is_digit (CHR ''e'')"
  "\<not> is_digit (CHR ''-'')" "\<not> is_digit (CHR ''+'')" "\<not> is_digit (CHR ''}'')"
  "\<not> is_digit (CHR '','')"
  by (simp_all add: is_digit_def)

lemma is_digit_not_special:
  assumes "is_digit c"
  shows "c \<noteq> CHR ''-''" "c \<noteq> CHR ''.''" "c \<noteq> CHR ''e''" "c \<noteq> CHR ''E''"
    "c \<noteq> CHR ''n''" "c \<noteq> CHR ''t''" "c \<noteq> CHR ''f''" "c \<noteq> CHR 0x22"
    "c \<noteq> CHR '' ''" "c \<noteq> CHR 0x09" "c \<noteq> CHR 0x0A" "c \<noteq> CHR 0x0D"
  using assms by (auto simp: is_digit_def)

lemma span_digits:
  assumes "\<forall>c \<in> set ds. is_digit c" and "rest = [] \<or> \<not> is_digit (hd rest)"
  shows "takeWhile is_digit (ds @ rest) = ds" and "dropWhile is_digit (ds @ rest) = rest"
proof -
  from assms(2) have t: "takeWhile is_digit rest = []" and d: "dropWhile is_digit rest = rest"
    by (cases rest; auto)+
  show "takeWhile is_digit (ds @ rest) = ds"
    using assms(1) t by (simp add: takeWhile_append2)
  show "dropWhile is_digit (ds @ rest) = rest"
    using assms(1) d by (simp add: dropWhile_append2)
qed

lemma parse_int_part_ok:
  assumes "\<forall>c \<in> set ds. is_digit c" and "ds \<noteq> []"
    and "\<not> (hd ds = CHR ''0'' \<and> length ds > 1)"
    and "rest = [] \<or> \<not> is_digit (hd rest)"
  shows "parse_int_part (ds @ rest) = Some (ds, rest)"
  using assms(2,3) by (simp add: parse_int_part_def span_digits [OF assms(1,4)] Let_def)

lemma parse_frac_absent:
  "rest = [] \<or> hd rest \<noteq> CHR ''.'' \<Longrightarrow> parse_frac rest = Some ([], rest)"
  by (cases rest) (auto simp: parse_frac_def)

lemma parse_frac_ok:
  assumes "\<forall>c \<in> set fs. is_digit c" and "fs \<noteq> []" and "rest = [] \<or> \<not> is_digit (hd rest)"
  shows "parse_frac (CHR ''.'' # fs @ rest) = Some (CHR ''.'' # fs, rest)"
  using assms(2) by (simp add: parse_frac_def span_digits [OF assms(1,3)])

lemma parse_exp_absent:
  "rest = [] \<or> (hd rest \<noteq> CHR ''e'' \<and> hd rest \<noteq> CHR ''E'') \<Longrightarrow>
   parse_exp rest = Some ([], rest)"
  by (cases rest) (auto simp: parse_exp_def)

lemma parse_exp_ok:
  assumes "sg = CHR ''+'' \<or> sg = CHR ''-''"
    and "\<forall>c \<in> set es. is_digit c" and "es \<noteq> []" and "rest = [] \<or> \<not> is_digit (hd rest)"
  shows "parse_exp (CHR ''e'' # sg # es @ rest) = Some (CHR ''e'' # sg # es, rest)"
  using assms(1,3) by (auto simp: parse_exp_def span_digits [OF assms(2,4)] Let_def)

lemma parse_number_parts:
  assumes "parse_int_part (ip @ tail) = Some (ip, tail)" and "ip \<noteq> []" and "is_digit (hd ip)"
    and "parse_frac tail = Some (fp, t2)" and "parse_exp t2 = Some (ep, t3)"
  shows "parse_number (ip @ tail) = Some (ip @ fp @ ep, t3)"
    and "parse_number (CHR ''-'' # ip @ tail) = Some (CHR ''-'' # ip @ fp @ ep, t3)"
proof -
  from assms(2) obtain c cs where ip: "ip = c # cs" by (cases ip) auto
  with assms(3) have "c \<noteq> CHR ''-''" by (auto simp: is_digit_not_special)
  with ip assms(1,4,5) show "parse_number (ip @ tail) = Some (ip @ fp @ ep, t3)"
    by (simp add: parse_number_def)
  from assms(1,4,5) show "parse_number (CHR ''-'' # ip @ tail) = Some (CHR ''-'' # ip @ fp @ ep, t3)"
    by (simp add: parse_number_def)
qed

lemma delimiter_facts:
  assumes "rest = [] \<or> hd rest = CHR ''}'' \<or> hd rest = CHR '',''"
  shows "rest = [] \<or> \<not> is_digit (hd rest)" and "rest = [] \<or> hd rest \<noteq> CHR ''.''"
    and "rest = [] \<or> (hd rest \<noteq> CHR ''e'' \<and> hd rest \<noteq> CHR ''E'')"
  using assms by (auto simp: is_digit_def)

lemma parse_number_shape:
  assumes ip: "\<forall>c \<in> set ip. is_digit c" "ip \<noteq> []" "\<not> (hd ip = CHR ''0'' \<and> length ip > 1)"
    and fp: "fp = [] \<or> (\<exists>fs. fp = CHR ''.'' # fs \<and> fs \<noteq> [] \<and> (\<forall>c \<in> set fs. is_digit c))"
    and ep: "ep = [] \<or> (\<exists>sg es. ep = CHR ''e'' # sg # es \<and> (sg = CHR ''+'' \<or> sg = CHR ''-'')
                \<and> es \<noteq> [] \<and> (\<forall>c \<in> set es. is_digit c))"
    and rest: "rest = [] \<or> hd rest = CHR ''}'' \<or> hd rest = CHR '',''"
  shows "parse_number (ip @ fp @ ep @ rest) = Some (ip @ fp @ ep, rest)"
    and "parse_number (CHR ''-'' # ip @ fp @ ep @ rest) = Some (CHR ''-'' # ip @ fp @ ep, rest)"
proof -
  note d = delimiter_facts [OF rest]
  have er: "ep @ rest = [] \<or> \<not> is_digit (hd (ep @ rest))"
    using ep d(1) by (auto simp: is_digit_literals)
  have er': "ep @ rest = [] \<or> hd (ep @ rest) \<noteq> CHR ''.''"
    using ep d(2) by auto
  have pe: "parse_exp (ep @ rest) = Some (ep, rest)"
  proof (cases "ep = []")
    case True
    with d(3) show ?thesis by (simp add: parse_exp_absent)
  next
    case False
    with ep obtain sg es where e: "ep = CHR ''e'' # sg # es" "sg = CHR ''+'' \<or> sg = CHR ''-''"
      "es \<noteq> []" "\<forall>c \<in> set es. is_digit c" by blast
    from parse_exp_ok [OF e(2) e(4) e(3) d(1)] e(1) show ?thesis by simp
  qed
  have pf: "parse_frac (fp @ ep @ rest) = Some (fp, ep @ rest)"
  proof (cases "fp = []")
    case True
    with er' show ?thesis by (simp add: parse_frac_absent)
  next
    case False
    with fp obtain fs where f: "fp = CHR ''.'' # fs" "fs \<noteq> []" "\<forall>c \<in> set fs. is_digit c"
      by blast
    from parse_frac_ok [OF f(3) f(2) er] f(1) show ?thesis by simp
  qed
  have tl: "fp @ ep @ rest = [] \<or> \<not> is_digit (hd (fp @ ep @ rest))"
    using fp er by (auto simp: is_digit_literals)
  have pi: "parse_int_part (ip @ fp @ ep @ rest) = Some (ip, fp @ ep @ rest)"
    by (rule parse_int_part_ok [OF ip tl])
  have hd: "is_digit (hd ip)"
    using ip(1,2) by (cases ip) auto
  from parse_number_parts [OF pi ip(2) hd pf pe]
  show "parse_number (ip @ fp @ ep @ rest) = Some (ip @ fp @ ep, rest)"
    and "parse_number (CHR ''-'' # ip @ fp @ ep @ rest) = Some (CHR ''-'' # ip @ fp @ ep, rest)"
    by simp_all
qed

lemma finite_repr_shape:
  "\<exists>ip fp ep. finite_repr m p = ip @ fp @ ep \<and>
     (\<forall>c \<in> set ip. is_digit c) \<and> ip \<noteq> [] \<and> \<not> (hd ip = CHR ''0'' \<and> length ip > 1) \<and>
     (fp = [] \<or> (\<exists>fs. fp = CHR ''.'' # fs \<and> fs \<noteq> [] \<and> (\<forall>c \<in> set fs. is_digit c))) \<and>
     (ep = [] \<or> (\<exists>sg es. ep = CHR ''e'' # sg # es \<and> (sg = CHR ''+'' \<or> sg = CHR ''-'')
                \<and> es \<noteq> [] \<and> (\<forall>c \<in> set es. is_digit c)))"
proof -
  let ?D = "digits m"
  let ?ok = "\<lambda>ip fp ep. finite_repr m p = ip @ fp @ ep \<and>
     (\<forall>c \<in> set ip. is_digit c) \<and> ip \<noteq> [] \<and> \<not> (hd ip = CHR ''0'' \<and> length ip > 1) \<and>
     (fp = [] \<or> (\<exists>fs. fp = CHR ''.'' # fs \<and> fs \<noteq> [] \<and> (\<forall>c \<in> set fs. is_digit c))) \<and>
     (ep = [] \<or> (\<exists>sg es. ep = CHR ''e'' # sg # es \<and> (sg = CHR ''+'' \<or> sg = CHR ''-'')
                \<and> es \<noteq> [] \<and> (\<forall>c \<in> set es. is_digit c)))"
  note dd = digits_all_digits [of m]
  note dn = digits_not_Nil [of m]
  consider (zero) "m = 0"
    | (expo) "m \<noteq> 0" "p \<le> - 4 \<or> p > 16"
    | (small) "m \<noteq> 0" "\<not> (p \<le> - 4 \<or> p > 16)" "p \<le> 0"
    | (mid) "m \<noteq> 0" "\<not> (p \<le> - 4 \<or> p > 16)" "\<not> p \<le> 0" "p < int (length ?D)"
    | (big) "m \<noteq> 0" "\<not> (p \<le> - 4 \<or> p > 16)" "\<not> p \<le> 0" "\<not> p < int (length ?D)"
    by blast
  then show ?thesis
  proof cases
    case zero
    have "?ok ''0'' ''.0'' []"
      using zero by (simp add: finite_repr_def is_digit_literals)
    then show ?thesis by blast
  next
    case expo
    let ?es = "pad2 (digits (nat \<bar>p - 1\<bar>))"
    let ?sg = "if p - 1 < 0 then CHR ''-'' else CHR ''+''"
    have es: "?es \<noteq> []" "\<forall>c \<in> set ?es. is_digit c"
      using digits_all_digits [of "nat \<bar>p - 1\<bar>"] digits_not_Nil [of "nat \<bar>p - 1\<bar>"]
      by (auto simp: pad2_def is_digit_literals)
    have tl: "\<forall>c \<in> set (tl ?D). is_digit c"
      using dd dn by (cases ?D) auto
    have h: "is_digit (hd ?D)" by (rule hd_digits)
    have "?ok [hd ?D] (if length ?D > 1 then CHR ''.'' # tl ?D else []) (CHR ''e'' # ?sg # ?es)"
    proof (cases "length ?D > 1")
      case True
      then have "tl ?D \<noteq> []" by (cases ?D) auto
      with True expo es tl h show ?thesis
        by (simp add: finite_repr_def Let_def)
    next
      case False
      with expo es h show ?thesis
        by (simp add: finite_repr_def Let_def)
    qed
    then show ?thesis by blast
  next
    case small
    let ?fs = "replicate (nat (- p)) (CHR ''0'') @ ?D"
    have "?ok ''0'' (CHR ''.'' # ?fs) []"
      using small dd dn by (auto simp: finite_repr_def Let_def is_digit_literals)
    then show ?thesis by blast
  next
    case mid
    let ?ip = "take (nat p) ?D"
    let ?fs = "drop (nat p) ?D"
    have ipn: "?ip \<noteq> []" using mid dn by simp
    have hd: "hd ?ip = hd ?D" using mid by (cases ?D) (auto simp: take_Cons')
    have nz: "hd ?ip \<noteq> CHR ''0''" using hd hd_digits_nonzero [of m] mid(1) by simp
    have fsn: "?fs \<noteq> []" using mid by simp
    have d1: "\<forall>c \<in> set ?ip. is_digit c" using dd by (auto dest: in_set_takeD)
    have d2: "\<forall>c \<in> set ?fs. is_digit c" using dd by (auto dest: in_set_dropD)
    have "?ok ?ip (CHR ''.'' # ?fs) []"
      using mid ipn nz fsn d1 d2 by (simp add: finite_repr_def Let_def)
    then show ?thesis by blast
  next
    case big
    let ?ip = "?D @ replicate (nat (p - int (length ?D))) (CHR ''0'')"
    have hd: "hd ?ip = hd ?D" using dn by simp
    have nz: "hd ?ip \<noteq> CHR ''0''" using hd hd_digits_nonzero [of m] big(1) by simp
    have d1: "\<forall>c \<in> set ?ip. is_digit c" using dd by (auto simp: is_digit_literals)
    have "?ok ?ip ''.0'' []"
      using big dn nz d1 by (simp add: finite_repr_def Let_def is_digit_literals)
    then show ?thesis by blast
  qed
qed

lemma parse_number_finite_repr:
  assumes "rest = [] \<or> hd rest = CHR ''}'' \<or> hd rest = CHR '',''"
  shows "parse_number (finite_repr m p @ rest) = Some (finite_repr m p, rest)"
    and "parse_number (CHR ''-'' # finite_repr m p @ rest) = Some (CHR ''-'' # finite_repr m p, rest)"
    and "finite_repr m p \<noteq> []" and "is_digit (hd (finite_repr m p))"
proof -
  from finite_repr_shape [of m p] obtain ip fp ep where s: "finite_repr m p = ip @ fp @ ep"
    and ip: "\<forall>c \<in> set ip. is_digit c" "ip \<noteq> []" "\<not> (hd ip = CHR ''0'' \<and> length ip > 1)"
    and fp: "fp = [] \<or> (\<exists>fs. fp = CHR ''.'' # fs \<and> fs \<noteq> [] \<and> (\<forall>c \<in> set fs. is_digit c))"
    and ep: "ep = [] \<or> (\<exists>sg es. ep = CHR ''e'' # sg # es \<and> (sg = CHR ''+'' \<or> sg = CHR ''-'')
                \<and> es \<noteq> [] \<and> (\<forall>c \<in> set es. is_digit c))"
    by blast
  from parse_number_shape [OF ip fp ep assms] s
  show "parse_number (finite_repr m p @ rest) = Some (finite_repr m p, rest)"
    and "parse_number (CHR ''-'' # finite_repr m p @ rest) = Some (CHR ''-'' # finite_repr m p, rest)"
    by simp_all
  from s ip(2) show "finite_repr m p \<noteq> []" by simp
  from s ip(1,2) show "is_digit (hd (finite_repr m p))" by (cases ip) auto
qed

lemma parse_number_str_int:
  assumes "rest = [] \<or> hd rest = CHR ''}'' \<or> hd rest = CHR '',''"
  shows "parse_number (str_int i @ rest) = Some (str_int i, rest)"
proof -
  have s: "\<And>n. parse_number (digits n @ [] @ [] @ rest) = Some (digits n @ [] @ [], rest)"
    "\<And>n. parse_number (CHR ''-'' # digits n @ [] @ [] @ rest) = Some (CHR ''-'' # digits n @ [] @ [], rest)"
    by (rule parse_number_shape [OF digits_all_digits digits_not_Nil digits_no_leading_zero _ _ assms];
        simp)+
  then show ?thesis by (simp add: str_int_def)
qed

lemma parse_value_dumps:
  assumes "dumps_value v = Inr sv" and "json_of v = Some j"
    and "rest = [] \<or> hd rest = CHR ''}'' \<or> hd rest = CHR '',''"
  shows "parse_value (sv @ rest) = Some (j, rest) \<and> skip_ws (sv @ rest) = sv @ rest"
proof -
  have number: "parse_value (sv @ rest) = Some (JNumber sv, rest) \<and> skip_ws (sv @ rest) = sv @ rest"
    if p: "parse_number (sv @ rest) = Some (sv, rest)"
      and c: "sv = c # cs" "c = CHR ''-'' \<or> is_digit c" for c cs
  proof -
    from c(2) have c': "c \<noteq> CHR ''n''" "c \<noteq> CHR ''t''" "c \<noteq> CHR ''f''" "c \<noteq> CHR 0x22"
      "c \<noteq> CHR '' ''" "c \<noteq> CHR 0x09" "c \<noteq> CHR 0x0A" "c \<noteq> CHR 0x0D"
      by (auto simp: is_digit_def)
    from p c(1) have "parse_number (c # cs @ rest) = Some (c # cs, rest)" by simp
    with c' c(1) show ?thesis
      by (simp add: parse_value_def skip_ws_def)
  qed
  show ?thesis
  proof (cases v)
    case PNone
    with assms show ?thesis by (auto simp: parse_value_def skip_ws_def)
  next
    case (PBool b)
    with assms show ?thesis by (cases b) (auto simp: parse_value_def skip_ws_def)
  next
    case (PInt i)
    with assms have sv: "sv = str_int i" and j: "j = JNumber sv" by auto
    have "\<exists>c cs. str_int i = c # cs \<and> (c = CHR ''-'' \<or> is_digit c)"
    proof (cases "i < 0")
      case True
      then show ?thesis by (simp add: str_int_def)
    next
      case False
      with hd_digits [of "nat i"] digits_not_Nil [of "nat i"] show ?thesis
        by (cases "digits (nat i)") (auto simp: str_int_def)
    qed
    then obtain c cs where c: "sv = c # cs" "c = CHR ''-'' \<or> is_digit c"
      using sv by blast
    from parse_number_str_int [OF assms(3), of i] sv
    have "parse_number (sv @ rest) = Some (sv, rest)" by simp
    from number [OF this c] j show ?thesis by simp
  next
    case (PFloat f)
    with assms(2) obtain neg m p where f: "f = FFinite neg m p"
      by (cases f) auto
    with PFloat assms have sv: "sv = (if neg then ''-'' else []) @ finite_repr m p"
      and j: "j = JNumber sv" by auto
    note fr = parse_number_finite_repr [OF assms(3), of m p]
    obtain d ds where d: "finite_repr m p = d # ds" "is_digit d"
      using fr(3,4) by (cases "finite_repr m p") auto
    have p: "parse_number (sv @ rest) = Some (sv, rest)"
      using fr(1,2) by (simp add: sv)
    have "\<exists>c cs. sv = c # cs \<and> (c = CHR ''-'' \<or> is_digit c)"
      using d by (simp add: sv)
    then obtain c cs where c: "sv = c # cs" "c = CHR ''-'' \<or> is_digit c" by blast
    from number [OF p c] j show ?thesis by simp
  next
    case (PStr s)
    with assms have sv: "sv = CHR 0x22 # concat (map escape_char s) @ [CHR 0x22]"
      by (simp add: dumps_str_def)
    have "parse_chars (concat (map escape_char s) @ CHR 0x22 # rest) = Some (s, rest)"
      by (rule parse_chars_body)
    with PStr assms(2) show ?thesis
      by (auto simp: sv parse_value_def skip_ws_def)
  next
    case (PObj r)
    with assms show ?thesis by simp
  qed
qed

lemma parse_members_space: "parse_members fuel (CHR '' '' # s) = parse_members fuel s"
  by (cases fuel) (simp_all add: skip_ws_def)

lemma parse_members_dumps:
  assumes "dumps_items items = Inr body" and "json_of_items items = Some js"
    and "items \<noteq> []" and "length items \<le> fuel"
  shows "parse_members fuel (body @ CHR ''}'' # rest) = Some (js, rest)"
  using assms
proof (induction items arbitrary: fuel body js)
  case Nil
  then show ?case by simp
next
  case (Cons p items)
  obtain k v where p: "p = (k, v)" by (cases p)
  from Cons.prems(1) p obtain sv rb where sv: "dumps_value v = Inr sv"
    and rb: "dumps_items items = Inr rb"
    and body: "body = dumps_str k @ '': '' @ sv @ (if items = [] then [] else '', '' @ rb)"
    by (auto split: sum.splits)
  from Cons.prems(2) p obtain j js' where j: "json_of v = Some j"
    and js': "json_of_items items = Some js'" and js: "js = (k, j) # js'"
    by (auto split: option.splits)
  from Cons.prems(4) obtain f where f: "fuel = Suc f" and fl: "length items \<le> f"
    by (cases fuel) auto
  let ?tail = "(if items = [] then [] else '', '' @ rb) @ CHR ''}'' # rest"
  have nd: "?tail = [] \<or> hd ?tail = CHR ''}'' \<or> hd ?tail = CHR '',''"
    by simp
  note pv = parse_value_dumps [OF sv j nd]
  have key: "parse_chars (concat (map escape_char k) @ CHR 0x22 # ('': '' @ sv @ ?tail))
               = Some (k, '': '' @ sv @ ?tail)"
    by (rule parse_chars_body)
  have ws: "skip_ws ('' '' @ sv @ ?tail) = sv @ ?tail"
    using pv by (simp add: skip_ws_def)
  have b: "body @ CHR ''}'' # rest
             = CHR 0x22 # concat (map escape_char k) @ CHR 0x22 # ('': '' @ sv @ ?tail)"
    by (simp add: body dumps_str_def)
  show ?case
  proof (cases "items = []")
    case True
    with js' have "js' = []" by simp
    moreover have "parse_members (Suc f) (CHR 0x22 # concat (map escape_char k) @ CHR 0x22 # ('': '' @ sv @ ?tail))
            = Some ([(k, j)], rest)"
      using key ws pv True by (simp add: skip_ws_def)
    ultimately show ?thesis using True p f b js by simp
  next
    case False
    from Cons.IH [OF rb js' False fl]
    have IH: "parse_members f (rb @ CHR ''}'' # rest) = Some (js', rest)" .
    have "parse_members (Suc f) (CHR 0x22 # concat (map escape_char k) @ CHR 0x22 # ('': '' @ sv @ ?tail))
            = Some ((k, j) # js', rest)"
      using key ws pv False IH by (simp add: skip_ws_def parse_members_space push_def)
    with p f b js show ?thesis by simp
  qed
qed

lemma length_dumps_items: "dumps_items items = Inr body \<Longrightarrow> length items \<le> length body"
proof (induction items arbitrary: body)
  case Nil
  then show ?case by simp
next
  case (Cons p items)
  obtain k v where p: "p = (k, v)" by (cases p)
  from Cons.prems p obtain sv rb where rb: "dumps_items items = Inr rb"
    and body: "body = dumps_str k @ '': '' @ sv @ (if items = [] then [] else '', '' @ rb)"
    by (auto split: sum.splits)
  from Cons.IH [OF rb] show ?case
    by (auto simp: body p dumps_str_def)
qed

lemma json_loads_dumps_dict:
  assumes "dumps_dict d = Inr line" and "json_of_items d = Some js"
  shows "json_loads line = Some js"
proof -
  from assms obtain body where body: "dumps_items d = Inr body" and line: "line = ''{'' @ body @ ''}''"
    by (auto simp: dumps_dict_def split: sum.splits)
  show ?thesis
  proof (cases "d = []")
    case True
    with body line assms(2) show ?thesis by (simp add: json_loads_def skip_ws_def)
  next
    case False
    then obtain k v items where d: "d = (k, v) # items" by (cases d) auto
    with body obtain tl where tl: "body = CHR 0x22 # tl"
      by (auto simp: dumps_str_def split: sum.splits)
    from length_dumps_items [OF body] have "length d \<le> length (body @ ''}'')" by simp
    from parse_members_dumps [OF body assms(2) False this, of "[]"]
    have "parse_members (length (body @ ''}'')) (body @ ''}'') = Some (js, [])" by simp
    then show ?thesis
      using tl by (simp add: line json_loads_def skip_ws_def)
  qed
qed

lemma keys_json_of_items: "json_of_items d = Some js \<Longrightarrow> map fst js = map fst d"
  by (induction d arbitrary: js) (auto split: option.splits)

lemma json_of_items_jsonable: "jsonable d \<Longrightarrow> \<exists>js. json_of_items d = Some js"
proof (induction d)
  case Nil
  then show ?case by simp
next
  case (Cons p d)
  obtain k v where p: "p = (k, v)" by (cases p)
  from Cons.prems p obtain j where j: "json_of v = Some j"
    by (auto simp: jsonable_def)
  from Cons.prems have "jsonable d" by (simp add: jsonable_def)
  with Cons.IH obtain js where "json_of_items d = Some js" by blast
  with j p show ?case by simp
qed

lemma json_of_safe_json_value:
  "\<not> nonfinite v \<Longrightarrow> \<exists>j. json_of (safe_json_value v) = Some j"
proof (cases v)
  case (PFloat f)
  assume "\<not> nonfinite v"
  with PFloat show ?thesis by (cases f) (auto simp: safe_json_value_def)
next
  case (PObj r)
  then show ?thesis by (cases r) (auto simp: safe_json_value_def)
qed (auto simp: safe_json_value_def)

lemma jsonable_update:
  "jsonable d \<Longrightarrow> \<exists>j. json_of v = Some j \<Longrightarrow> jsonable (AList.update k v d)"
  unfolding jsonable_def using snd_set_update [of k v d] by blast

lemma jsonable_json_ctx_loop:
  "jsonable data \<Longrightarrow> \<forall>v \<in> snd ` set ctx. \<not> nonfinite v \<Longrightarrow> jsonable (json_ctx_loop ctx data)"
  by (induction ctx arbitrary: data) (auto simp: jsonable_update json_of_safe_json_value)

lemma jsonable_json_record_loop:
  "jsonable data \<Longrightarrow> \<forall>v \<in> snd ` set items. \<not> nonfinite v \<Longrightarrow>
   jsonable (json_record_loop items data)"
  by (induction items arbitrary: data) (auto simp: jsonable_update json_of_safe_json_value)

lemma jsonable_json_base: "jsonable (json_base ts_key df r)"
  unfolding json_base_def
  by (intro jsonable_update) (simp_all add: jsonable_def)

lemma jsonable_json_data:
  assumes "\<forall>v \<in> snd ` set ctx \<union> snd ` set (attrs r). \<not> nonfinite v"
  shows "jsonable (json_data ts_key df ctx r)"
proof -
  have c: "\<forall>v \<in> snd ` set ctx. \<not> nonfinite v" and a: "\<forall>v \<in> snd ` set (attrs r). \<not> nonfinite v"
    using assms by auto
  have "jsonable (json_record_loop (attrs r) (json_ctx_loop ctx (json_base ts_key df r)))"
    by (intro jsonable_json_record_loop jsonable_json_ctx_loop jsonable_json_base c a)
  then show ?thesis
    by (auto simp: json_data_def Let_def json_record_loop_record_dict jsonable_update
        split: option.splits)
qed

text \<open>
  C8 (as the code has it). When no value of the ambient context and no extra field of
  the record is a float that is not finite, \<open>JsonFormatter.format\<close> returns a line that
  reads back as JSON to the formatter's object; the keys of the object are distinct and
  include the configured timestamp key, \<open>level\<close>, \<open>logger\<close>, \<open>message\<close>, \<open>module\<close>,
  \<open>func\<close> and \<open>line\<close>.
\<close>

theorem json_line_parses_with_base_keys:
  assumes "\<forall>v \<in> snd ` set ctx \<union> snd ` set (attrs r). \<not> nonfinite v"
  shows "\<exists>line obj. JsonFormatter_format ts_key df ctx r = (Inr line, r) \<and>
           json_loads line = Some obj \<and>
           json_of_items (json_data ts_key df ctx r) = Some obj \<and>
           distinct (map fst obj) \<and>
           {ts_key, ''level'', ''logger'', ''message'', ''module'', ''func'', ''line''}
             \<subseteq> fst ` set obj"
proof -
  from JsonFormatter_format_total [of ts_key df ctx r]
  obtain line where l: "JsonFormatter_format ts_key df ctx r = (Inr line, r)" by blast
  then have d: "dumps_dict (json_data ts_key df ctx r) = Inr line"
    by (simp add: JsonFormatter_format_def)
  from json_of_items_jsonable [OF jsonable_json_data [OF assms, of ts_key df]]
  obtain obj where obj: "json_of_items (json_data ts_key df ctx r) = Some obj" by blast
  from keys_json_of_items [OF obj]
  have k: "map fst obj = map fst (json_data ts_key df ctx r)" .
  then have "fst ` set obj = fst ` set (json_data ts_key df ctx r)"
    by (metis set_map)
  with k json_loads_dumps_dict [OF d obj] l obj distinct_json_data [of ts_key df ctx r]
    keys_json_data [of ts_key df ctx r]
  show ?thesis by auto
qed

theorem json_line_parses_with_base_keys_witness:
  "\<not> nonfinite (PFloat (FFinite False 15 1)) \<and> \<not> nonfinite (PInt 3) \<and>
   (\<exists>line obj.
      JsonFormatter_format ''ts'' digits [(''load'', PFloat (FFinite False 15 1))]
          (sample_record [(''n'', PInt 3)])
        = (Inr line, sample_record [(''n'', PInt 3)]) \<and>
      json_loads line = Some obj \<and>
      map_of obj ''load'' = Some (JNumber ''1.5'') \<and>
      map_of obj ''n'' = Some (JNumber ''3'') \<and>
      map_of obj ''func'' = Some (JString ''info''))"
proof -
  let ?ctx = "[(''load'', PFloat (FFinite False 15 1))]"
  let ?r = "sample_record [(''n'', PInt 3)]"
  have h: "\<forall>v \<in> snd ` set ?ctx \<union> snd ` set (attrs ?r). \<not> nonfinite v"
    by (simp add: sample_record_def)
  from json_line_parses_with_base_keys [OF h, of "''ts''" digits]
  obtain line obj where l: "JsonFormatter_format ''ts'' digits ?ctx ?r = (Inr line, ?r)"
    and p: "json_loads line = Some obj"
    and o: "json_of_items (json_data ''ts'' digits ?ctx ?r) = Some obj"
    by blast
  have "json_of_items (json_data ''ts'' digits ?ctx ?r)
          = Some [(''ts'', JString ''0''), (''level'', JString ''INFO''),
                  (''logger'', JString ''app''), (''message'', JString ''hello''),
                  (''module'', JString ''logger''), (''func'', JString ''info''),
                  (''line'', JNumber ''41''), (''load'', JNumber ''1.5''),
                  (''n'', JNumber ''3'')]"
    by code_simp
  with o have "map_of obj ''load'' = Some (JNumber ''1.5'')"
    "map_of obj ''n'' = Some (JNumber ''3'')" "map_of obj ''func'' = Some (JString ''info'')"
    by auto
  with l p show ?thesis by auto
qed

text \<open>
  C8 (as stated). With the extra field \<open>x\<close> bound to \<open>float("nan")\<close> the line holds the
  token \<open>NaN\<close> and does not read back as JSON. And the object of a record has no key
  \<open>function\<close>: the function name is under \<open>func\<close>.
\<close>

theorem json_line_with_nan_or_function_key:
  "map_sum id json_loads
     (fst (JsonFormatter_format ''ts'' digits [] (sample_record [(''x'', PFloat FNaN)])))
     = Inr None \<and>
   ''function'' \<notin> fst ` set (json_data ''ts'' digits [] (sample_record []))"
proof -
  have "map_sum id json_loads
     (fst (JsonFormatter_format ''ts'' digits [] (sample_record [(''x'', PFloat FNaN)])))
     = Inr None"
    by code_simp
  moreover have "''function'' \<notin> fst ` set (json_data ''ts'' digits [] (sample_record []))"
    by (simp add: json_data_def json_base_def record_dict_def sample_record_def Let_def
        std_defs getMessage_def)
  ultimately show ?thesis by simp
qed

end
